theory Spec2Isabelle
  imports Complex_Main
begin

section \<open>The document: grid, rows and cells\<close>

text \<open>
  The program keeps the whole board in the DOM. The element with id \<open>grid\<close> has one child
  per row (class \<open>row\<close>), every row has one child per cell (class \<open>col\<close>). A cell carries
  the id \<^verbatim>\<open>`${rowIdx}-${colIdx}`\<close> it was created with and, when it is alive, the attribute
  \<open>data-alive\<close>. The id is kept as the pair of the two numbers: the text of the id is an
  injective image of that pair, and \<open>check\<close> of the second file reads the pair back with
  \<open>split('-')\<close> and \<open>Number\<close> from ids of existing cells only.

  A node reference is the position of the cell in the tree: the index of its row among
  the children of the grid and its own index among the children of the row. Reading and
  writing a node goes through that reference; finding a node goes through its id, as
  \<open>document.getElementById\<close> does.

  The label of the play button and the class \<open>grid--deleteMode\<close> are presentation only
  and are left out.
\<close>

datatype drag = Delete | Add

datatype error = TypeError

record cell =
  cid :: "int \<times> int"
  data_alive :: "string option"

type_synonym grid = "cell list list"

type_synonym node = "nat \<times> nat"

definition CELL_DIMS :: rat where
  "CELL_DIMS = 32"

definition CELLS_MULTIPLIER :: rat where
  "CELLS_MULTIPLIER = 1.5"

definition cellAt :: "grid \<Rightarrow> node \<Rightarrow> cell" where
  "cellAt g p = g ! fst p ! snd p"

text \<open>All cells of the grid in document order.\<close>

definition nodes :: "grid \<Rightarrow> node list" where
  "nodes g = concat (map (\<lambda>i. map (Pair i) [0..<length (g ! i)]) [0..<length g])"

text \<open>\<open>getNode\<close>: \<open>document.getElementById\<close> returns the first element in document order
  with the id, or \<open>null\<close>.\<close>

definition getNode :: "grid \<Rightarrow> int \<Rightarrow> int \<Rightarrow> node option" where
  "getNode g rowIdx colIdx = find (\<lambda>p. cid (cellAt g p) = (rowIdx, colIdx)) (nodes g)"

text \<open>Truthiness of \<open>node.dataset.alive\<close>: \<open>undefined\<close> when the attribute is absent,
  otherwise the attribute's text, which is falsy only when empty.\<close>

fun truthy :: "string option \<Rightarrow> bool" where
  "truthy None = False"
| "truthy (Some s) = (s \<noteq> [])"

definition getIsNodeAlive :: "grid \<Rightarrow> node option \<Rightarrow> bool" where
  "getIsNodeAlive g node =
     (case node of None \<Rightarrow> False | Some p \<Rightarrow> truthy (data_alive (cellAt g p)))"

definition updCell :: "(cell \<Rightarrow> cell) \<Rightarrow> node \<Rightarrow> grid \<Rightarrow> grid" where
  "updCell f p g = g[fst p := (g ! fst p)[snd p := f (g ! fst p ! snd p)]]"

definition removeAttribute :: "node \<Rightarrow> grid \<Rightarrow> grid" where
  "removeAttribute = updCell (\<lambda>c. c\<lparr>data_alive := None\<rparr>)"

definition setAlive :: "node \<Rightarrow> grid \<Rightarrow> grid" where
  "setAlive = updCell (\<lambda>c. c\<lparr>data_alive := Some ''true''\<rparr>)"

section \<open>The generation step\<close>

text \<open>The eight neighbours in the order of the object literal: topLeft, top, topRight,
  right, bottomRight, bottom, bottomLeft, left.\<close>

definition neighbors :: "grid \<Rightarrow> int \<Rightarrow> int \<Rightarrow> node option list" where
  "neighbors g rowIdx colIdx =
     [getNode g (rowIdx - 1) (colIdx - 1),
      getNode g (rowIdx - 1) colIdx,
      getNode g (rowIdx - 1) (colIdx + 1),
      getNode g rowIdx (colIdx + 1),
      getNode g (rowIdx + 1) (colIdx + 1),
      getNode g (rowIdx + 1) colIdx,
      getNode g (rowIdx + 1) (colIdx - 1),
      getNode g rowIdx (colIdx - 1)]"

text \<open>The two arrays \<open>nodesToKill\<close> and \<open>nodesToResurrect\<close>. An entry is whatever was
  pushed: a node or \<open>null\<close>.\<close>

record lists =
  nodesToKill :: "node option list"
  nodesToResurrect :: "node option list"

text \<open>The rule, as both files write it: the body of the inner loop of \<open>render\<close> in
  game.js from \<open>isAlive\<close> on, and the tail of \<open>check\<close>.\<close>

definition rule :: "node option \<Rightarrow> bool \<Rightarrow> nat \<Rightarrow> lists \<Rightarrow> lists" where
  "rule node isAlive aliveNeighbors acc =
     (if isAlive then
        (if aliveNeighbors = 2 \<or> aliveNeighbors = 3 then acc
         else acc\<lparr>nodesToKill := nodesToKill acc @ [node]\<rparr>)
      else if aliveNeighbors = 3 then acc\<lparr>nodesToResurrect := nodesToResurrect acc @ [node]\<rparr>
      else acc)"

text \<open>The two loops that end \<open>render\<close>. Reading \<open>dataset\<close> of \<open>null\<close> and calling
  \<open>removeAttribute\<close> on \<open>null\<close> throw a TypeError; what was written before stays written.\<close>

fun killAll :: "node option list \<Rightarrow> grid \<Rightarrow> (error \<times> grid) + grid" where
  "killAll [] g = Inr g"
| "killAll (None # ns) g = Inl (TypeError, g)"
| "killAll (Some p # ns) g = killAll ns (removeAttribute p g)"

fun resurrectAll :: "node option list \<Rightarrow> grid \<Rightarrow> (error \<times> grid) + grid" where
  "resurrectAll [] g = Inr g"
| "resurrectAll (None # ns) g = Inl (TypeError, g)"
| "resurrectAll (Some p # ns) g = resurrectAll ns (setAlive p g)"

definition applyLists :: "lists \<Rightarrow> grid \<Rightarrow> (error \<times> grid) + grid" where
  "applyLists acc g =
     (case killAll (nodesToKill acc) g of
        Inl e \<Rightarrow> Inl e
      | Inr g1 \<Rightarrow> resurrectAll (nodesToResurrect acc) g1)"

subsection \<open>game.js: the full scan\<close>

text \<open>The body of the inner loop at \<open>(rowIdx, colIdx)\<close>.\<close>

definition visit :: "grid \<Rightarrow> int \<Rightarrow> int \<Rightarrow> lists \<Rightarrow> lists" where
  "visit g rowIdx colIdx acc =
     (let node = getNode g rowIdx colIdx;
          isAlive = getIsNodeAlive g node;
          aliveNeighbors = length (filter (getIsNodeAlive g) (neighbors g rowIdx colIdx))
      in rule node isAlive aliveNeighbors acc)"

text \<open>The coordinates the two nested loops pass to the body, in order: \<open>colIdx\<close> runs over
  \<open>colsLength = grid.childNodes.length\<close> in the outer loop, \<open>rowIdx\<close> over
  \<open>rowsLength = grid.childNodes[0].childNodes.length\<close> in the inner one.\<close>

definition scanned :: "nat \<Rightarrow> nat \<Rightarrow> (int \<times> int) list" where
  "scanned colsLength rowsLength =
     concat (map (\<lambda>colIdx. map (\<lambda>rowIdx. (int rowIdx, int colIdx)) [0..<rowsLength])
                 [0..<colsLength])"

definition scan :: "grid \<Rightarrow> lists" where
  "scan g =
     (let colsLength = length g; rowsLength = length (g ! 0)
      in fold (\<lambda>(rowIdx, colIdx). visit g rowIdx colIdx) (scanned colsLength rowsLength)
           \<lparr>nodesToKill = [], nodesToResurrect = []\<rparr>)"

text \<open>\<open>grid.childNodes[0]\<close> is \<open>undefined\<close> when the grid has no row, and reading
  \<open>childNodes\<close> of it throws.\<close>

definition render :: "grid \<Rightarrow> (error \<times> grid) + grid" where
  "render g = (if g = [] then Inl (TypeError, g) else applyLists (scan g) g)"

subsection \<open>The second file: alive cells and their neighbours\<close>

text \<open>The definitions of the second source file (part 000) that differ from game.js carry
  the suffix \<open>_p0\<close>.\<close>

record walk =
  seen :: "(int \<times> int) set"
  found :: lists

text \<open>\<open>check(node, recurse)\<close>. The nested call never passes \<open>recurse\<close>, so it takes the
  default \<open>false\<close>.\<close>

function check_p0 :: "grid \<Rightarrow> node \<Rightarrow> bool \<Rightarrow> walk \<Rightarrow> walk" where
  "check_p0 g node recurse w =
     (if cid (cellAt g node) \<in> seen w then w
      else
        let rowIdx = fst (cid (cellAt g node));
            colIdx = snd (cid (cellAt g node));
            neighborsArr = filter (\<lambda>n. n \<noteq> None) (neighbors g rowIdx colIdx);
            w1 = (if recurse then fold (\<lambda>c. check_p0 g (the c) False) neighborsArr w else w);
            isAlive = getIsNodeAlive g (Some node);
            aliveNeighbors = length (filter (getIsNodeAlive g) neighborsArr);
            w2 = w1\<lparr>seen := insert (cid (cellAt g node)) (seen w1)\<rparr>
        in w2\<lparr>found := rule (Some node) isAlive aliveNeighbors (found w2)\<rparr>)"
  by pat_completeness auto
termination
  by (relation "measure (\<lambda>(g, node, recurse, w). if recurse then 1 else 0)") auto

declare check_p0.simps [simp del]

text \<open>\<open>document.querySelectorAll('[data-alive]')\<close>: the cells that have the attribute,
  whatever its text, in document order.\<close>

definition querySelectorAll_alive :: "grid \<Rightarrow> node list" where
  "querySelectorAll_alive g = filter (\<lambda>p. data_alive (cellAt g p) \<noteq> None) (nodes g)"

definition walk_p0 :: "grid \<Rightarrow> walk" where
  "walk_p0 g =
     fold (\<lambda>node. check_p0 g node True) (querySelectorAll_alive g)
       \<lparr>seen = {}, found = \<lparr>nodesToKill = [], nodesToResurrect = []\<rparr>\<rparr>"

definition render_p0 :: "grid \<Rightarrow> (error \<times> grid) + grid" where
  "render_p0 g = applyLists (found (walk_p0 g)) g"

section \<open>The grid and the viewport\<close>

text \<open>\<open>window.innerHeight\<close> and \<open>window.innerWidth\<close> are integers. For an integer the
  quotient by 32 and its product with 1.5 are exact in double precision, so the rational
  value below is the number JavaScript rounds.\<close>

definition reqRows :: "int \<Rightarrow> int" where
  "reqRows height = \<lfloor>(of_int height / CELL_DIMS) * 1.5\<rfloor>"

definition reqCols :: "int \<Rightarrow> int" where
  "reqCols width = \<lceil>(of_int width / CELL_DIMS) * CELLS_MULTIPLIER\<rceil>"

text \<open>\<open>xs.slice(0, end)\<close>: a negative \<open>end\<close> counts from the end of the array.\<close>

definition slice0 :: "int \<Rightarrow> 'a list \<Rightarrow> 'a list" where
  "slice0 end xs =
     (if end < 0 then take (nat (int (length xs) + end)) xs else take (nat end) xs)"

definition newColumn :: "nat \<Rightarrow> nat \<Rightarrow> cell" where
  "newColumn rowIdx colIdx = \<lparr>cid = (int rowIdx, int colIdx), data_alive = None\<rparr>"

definition initRows :: "int \<Rightarrow> grid \<Rightarrow> grid" where
  "initRows reqR g =
     (let currRows = length g
      in if int currRows > reqR then slice0 reqR g
         else g @ replicate (nat (reqR - int currRows)) [])"

definition initCols :: "int \<Rightarrow> nat \<Rightarrow> cell list \<Rightarrow> cell list" where
  "initCols reqC rowIdx row =
     (let currCols = length row
      in if int currCols > reqC then slice0 reqC row
         else row @ map (newColumn rowIdx) [currCols..<nat reqC])"

definition initGrid :: "int \<Rightarrow> int \<Rightarrow> grid \<Rightarrow> grid" where
  "initGrid height width g =
     (let rows = initRows (reqRows height) g
      in map (\<lambda>rowIdx. initCols (reqCols width) rowIdx (rows ! rowIdx)) [0..<length rows])"

section \<open>The handlers of the cells\<close>

definition column_onmousedown :: "node \<Rightarrow> grid \<Rightarrow> grid" where
  "column_onmousedown target g =
     (if data_alive (cellAt g target) = Some ''true'' then removeAttribute target g
      else setAlive target g)"

definition column_onmouseenter :: "drag option \<Rightarrow> node \<Rightarrow> grid \<Rightarrow> grid" where
  "column_onmouseenter dt target g =
     (if dt = Some Delete then removeAttribute target g
      else if dt = Some Add then setAlive target g
      else g)"

section \<open>The game and its clock\<close>

text \<open>The state of the class, and the part of the browser the clock lives in: the ids of
  the intervals that were set and not cleared, and the id \<open>setInterval\<close> hands out next.\<close>

record game =
  dragType :: "drag option"
  intervalMs :: nat
  intervalId :: "nat option"
  grid :: grid
  intervals :: "nat set"
  nextInterval :: nat

definition clearInterval :: "nat option \<Rightarrow> nat set \<Rightarrow> nat set" where
  "clearInterval i T = (case i of None \<Rightarrow> T | Some k \<Rightarrow> T - {k})"

definition pause :: "game \<Rightarrow> game" where
  "pause s = s\<lparr>intervals := clearInterval (intervalId s) (intervals s), intervalId := None\<rparr>"

definition play :: "game \<Rightarrow> game" where
  "play s = s\<lparr>intervalId := Some (nextInterval s),
              intervals := insert (nextInterval s) (intervals s),
              nextInterval := Suc (nextInterval s)\<rparr>"

definition playBtn_click :: "game \<Rightarrow> game" where
  "playBtn_click s = (if intervalId s = None then play s else pause s)"

definition clearCell :: "cell \<Rightarrow> cell" where
  "clearCell col = (if truthy (data_alive col) then col\<lparr>data_alive := None\<rparr> else col)"

definition clearBtn_onclick :: "game \<Rightarrow> game" where
  "clearBtn_onclick s = (let s1 = pause s in s1\<lparr>grid := map (map clearCell) (grid s1)\<rparr>)"

text \<open>\<open>onDrag(isDragStart)(event)\<close>. The target is a cell (an element of class \<open>col\<close>) or
  another element inside the grid.\<close>

definition dragBody :: "bool \<Rightarrow> node option \<Rightarrow> game \<Rightarrow> game" where
  "dragBody isDragStart target s =
     (let s1 = (if \<not> isDragStart then s\<lparr>dragType := None\<rparr> else s)
      in case target of
           Some p \<Rightarrow>
             if isDragStart
             then s1\<lparr>dragType :=
                      Some (if data_alive (cellAt (grid s1) p) \<noteq> Some ''true'' then Delete else Add)\<rparr>
             else s1
         | None \<Rightarrow> s1)"

definition onDrag :: "bool \<Rightarrow> node option \<Rightarrow> game \<Rightarrow> game" where
  "onDrag isDragStart target s = dragBody isDragStart target (pause s)"

definition onDrag_p0 :: "bool \<Rightarrow> node option \<Rightarrow> game \<Rightarrow> game" where
  "onDrag_p0 isDragStart target s = dragBody isDragStart target s"

section \<open>Events\<close>

text \<open>Which of the two source files is loaded. They share everything but \<open>render\<close>, the
  first line of \<open>onDrag\<close> and the debounce of the resize listener.\<close>

datatype variant = GameJs | Part000

text \<open>What the browser can deliver. A mouse or touch event inside the grid has a cell as
  its target (\<open>Some\<close>) or another element (\<open>None\<close>). \<open>Tick\<close> is one call of \<open>render\<close>
  by an interval.\<close>

datatype event =
    PlayClick
  | ClearClick
  | Resize int int
  | MouseDown "node option"
  | MouseUp
  | TouchStart "node option"
  | TouchEnd
  | MouseEnter node
  | Tick

definition isNode :: "grid \<Rightarrow> node \<Rightarrow> bool" where
  "isNode g p = (fst p < length g \<and> snd p < length (g ! fst p))"

text \<open>An event reaches a cell only if the cell is in the document, an interval fires only
  if it is set, and the viewport has no negative side.\<close>

fun happens :: "event \<Rightarrow> game \<Rightarrow> bool" where
  "happens (MouseDown (Some p)) s = isNode (grid s) p"
| "happens (TouchStart (Some p)) s = isNode (grid s) p"
| "happens (MouseEnter p) s = isNode (grid s) p"
| "happens (Resize h w) s = (0 \<le> h \<and> 0 \<le> w)"
| "happens Tick s = (intervals s \<noteq> {})"
| "happens e s = True"

definition drag :: "variant \<Rightarrow> bool \<Rightarrow> node option \<Rightarrow> game \<Rightarrow> game" where
  "drag f = (case f of GameJs \<Rightarrow> onDrag | Part000 \<Rightarrow> onDrag_p0)"

text \<open>An exception of \<open>render\<close> ends the call; the cells it wrote before stay written.\<close>

definition outcome :: "(error \<times> grid) + grid \<Rightarrow> grid" where
  "outcome r = (case r of Inl (e, g) \<Rightarrow> g | Inr g \<Rightarrow> g)"

definition tick :: "variant \<Rightarrow> game \<Rightarrow> game" where
  "tick f s =
     s\<lparr>grid := outcome (case f of GameJs \<Rightarrow> render (grid s) | Part000 \<Rightarrow> render_p0 (grid s))\<rparr>"

text \<open>A mouse press on a cell runs the cell's own \<open>onmousedown\<close> first and the grid's
  listener after it: the event is handled at its target before it bubbles. A touch has
  no handler on the cell.\<close>

fun fire :: "variant \<Rightarrow> event \<Rightarrow> game \<Rightarrow> game" where
  "fire f PlayClick s = playBtn_click s"
| "fire f ClearClick s = clearBtn_onclick s"
| "fire f (Resize h w) s = s\<lparr>grid := initGrid h w (grid s)\<rparr>"
| "fire f (MouseDown None) s = drag f True None s"
| "fire f (MouseDown (Some p)) s =
     drag f True (Some p) (s\<lparr>grid := column_onmousedown p (grid s)\<rparr>)"
| "fire f MouseUp s = drag f False None s"
| "fire f (TouchStart t) s = drag f True t s"
| "fire f TouchEnd s = drag f False None s"
| "fire f (MouseEnter p) s = s\<lparr>grid := column_onmouseenter (dragType s) p (grid s)\<rparr>"
| "fire f Tick s = tick f s"

text \<open>The state after \<open>init()\<close>: the initial fields of the class, an empty grid element
  filled by the first \<open>initGrid()\<close>.\<close>

definition init :: "int \<Rightarrow> int \<Rightarrow> game" where
  "init height width =
     \<lparr>dragType = None, intervalMs = 100, intervalId = None,
      grid = initGrid height width [], intervals = {}, nextInterval = 1\<rparr>"

inductive reachable :: "variant \<Rightarrow> game \<Rightarrow> bool" for f :: variant where
  start: "0 \<le> height \<Longrightarrow> 0 \<le> width \<Longrightarrow> reachable f (init height width)"
| step: "reachable f s \<Longrightarrow> happens e s \<Longrightarrow> reachable f (fire f e s)"

section \<open>Predicates of the statements\<close>

text \<open>Every cell sits where its id says.\<close>

definition ids_ok :: "grid \<Rightarrow> bool" where
  "ids_ok g = list_all (\<lambda>p. cid (cellAt g p) = (int (fst p), int (snd p))) (nodes g)"

text \<open>The marker of every cell is the text \<open>true\<close> or absent.\<close>

definition marker_ok :: "grid \<Rightarrow> bool" where
  "marker_ok g =
     list_all (list_all (\<lambda>c. data_alive c = None \<or> data_alive c = Some ''true'')) g"

text \<open>The grid has \<open>R\<close> rows of \<open>C\<close> cells each.\<close>

definition shape :: "nat \<Rightarrow> nat \<Rightarrow> grid \<Rightarrow> bool" where
  "shape R C g = (length g = R \<and> list_all (\<lambda>row. length row = C) g)"

text \<open>The state of the cell at a coordinate, read the way \<open>render\<close> reads it.\<close>

definition alive :: "grid \<Rightarrow> int \<Rightarrow> int \<Rightarrow> bool" where
  "alive g rowIdx colIdx = getIsNodeAlive g (getNode g rowIdx colIdx)"

text \<open>The board as the user sees it: which cells show as alive.\<close>

definition board :: "grid \<Rightarrow> bool list list" where
  "board g = map (map (\<lambda>c. truthy (data_alive c))) g"

text \<open>The intervals that are set are exactly the one the game remembers, if any.\<close>

definition single_source :: "game \<Rightarrow> bool" where
  "single_source s = (intervals s = (case intervalId s of None \<Rightarrow> {} | Some i \<Rightarrow> {i}))"

text \<open>The number \<open>render\<close> and \<open>check\<close> call \<open>aliveNeighbors\<close>, at a coordinate.\<close>

definition aliveCount :: "grid \<Rightarrow> int \<Rightarrow> int \<Rightarrow> nat" where
  "aliveCount g rowIdx colIdx = length (filter (getIsNodeAlive g) (neighbors g rowIdx colIdx))"

text \<open>The rule in the words of the specification (section 4.4): an alive cell stays alive
  with 2 or 3 alive neighbours, a dead cell becomes alive with exactly 3. It is compared
  with what the code's \<open>rule\<close> and the two final loops do to a cell.\<close>

definition B3S23 :: "bool \<Rightarrow> nat \<Rightarrow> bool" where
  "B3S23 isAlive n = (if isAlive then n = 2 \<or> n = 3 else n = 3)"

text \<open>The coordinates whose node \<open>rule\<close> pushes to \<open>nodesToKill\<close> and to
  \<open>nodesToResurrect\<close>.\<close>

definition dies :: "grid \<Rightarrow> int \<times> int \<Rightarrow> bool" where
  "dies g = (\<lambda>(r, c). alive g r c \<and> \<not> (aliveCount g r c = 2 \<or> aliveCount g r c = 3))"

definition born :: "grid \<Rightarrow> int \<times> int \<Rightarrow> bool" where
  "born g = (\<lambda>(r, c). \<not> alive g r c \<and> aliveCount g r c = 3)"

text \<open>No entry of the two arrays is \<open>null\<close>.\<close>

definition no_null :: "lists \<Rightarrow> bool" where
  "no_null acc = (None \<notin> set (nodesToKill acc) \<and> None \<notin> set (nodesToResurrect acc))"

text \<open>The id a cell has when it sits where its id says.\<close>

definition idOf :: "node \<Rightarrow> int \<times> int" where
  "idOf p = (int (fst p), int (snd p))"

text \<open>The state of the walk of the second file: the two arrays hold exactly the seen cells
  that die and that are born, and every seen id is the id of a cell.\<close>

definition walk_ok :: "grid \<Rightarrow> walk \<Rightarrow> bool" where
  "walk_ok g w =
     (\<exists>ks rs. nodesToKill (found w) = map Some ks \<and> nodesToResurrect (found w) = map Some rs \<and>
        set ks = {p. isNode g p \<and> idOf p \<in> seen w \<and> dies g (idOf p)} \<and>
        set rs = {p. isNode g p \<and> idOf p \<in> seen w \<and> born g (idOf p)})"

definition seen_ok :: "grid \<Rightarrow> walk \<Rightarrow> bool" where
  "seen_ok g w = (seen w \<subseteq> idOf ` {p. isNode g p})"

section \<open>The viewport formulas on integers\<close>

lemma reqRows_div: "reqRows h = (3 * h) div 64"
proof -
  have "(of_int h / CELL_DIMS) * 1.5 = (of_int (3 * h) / of_int 64 :: rat)"
    by (simp add: CELL_DIMS_def)
  thus ?thesis unfolding reqRows_def by (simp only: floor_divide_of_int_eq)
qed

lemma reqCols_div: "reqCols w = - ((- (3 * w)) div 64)"
proof -
  have "(of_int w / CELL_DIMS) * CELLS_MULTIPLIER = - (of_int (- (3 * w)) / of_int 64 :: rat)"
    by (simp add: CELL_DIMS_def CELLS_MULTIPLIER_def)
  thus ?thesis unfolding reqCols_def
    by (simp only: ceiling_def floor_divide_of_int_eq minus_minus)
qed

section \<open>Finding a node by its id\<close>

lemma set_nodes: "set (nodes g) = {p. isNode g p}"
  by (auto simp: nodes_def isNode_def)

lemma isNode_nodes: "isNode g p \<longleftrightarrow> p \<in> set (nodes g)"
  by (simp add: set_nodes)

lemma find_unique:
  assumes "x \<in> set xs" and "P x" and "\<And>y. y \<in> set xs \<Longrightarrow> P y \<Longrightarrow> y = x"
  shows "find P xs = Some x"
proof (cases "find P xs")
  case None
  with assms(1,2) show ?thesis by (auto simp: find_None_iff)
next
  case (Some z)
  hence "z \<in> set xs \<and> P z" by (auto simp: find_Some_iff)
  with assms(3) Some show ?thesis by blast
qed

lemma ids_ok_iff:
  "ids_ok g \<longleftrightarrow> (\<forall>i<length g. \<forall>j<length (g ! i). cid (g ! i ! j) = (int i, int j))"
  by (auto simp: ids_ok_def list_all_iff set_nodes isNode_def cellAt_def)

text \<open>When every cell sits where its id says, \<open>getNode\<close> is the lookup by position, and
  a coordinate outside the grid has no node and reads as dead.\<close>

lemma getNode_ids_ok:
  assumes "ids_ok g"
  shows "getNode g r c =
           (if 0 \<le> r \<and> 0 \<le> c \<and> isNode g (nat r, nat c) then Some (nat r, nat c) else None)"
proof (cases "0 \<le> r \<and> 0 \<le> c \<and> isNode g (nat r, nat c)")
  case True
  have "find (\<lambda>p. cid (cellAt g p) = (r, c)) (nodes g) = Some (nat r, nat c)"
  proof (rule find_unique)
    show "(nat r, nat c) \<in> set (nodes g)" using True by (simp add: set_nodes)
    show "cid (cellAt g (nat r, nat c)) = (r, c)"
      using True assms by (auto simp: ids_ok_iff isNode_def cellAt_def)
    fix y assume y: "y \<in> set (nodes g)" "cid (cellAt g y) = (r, c)"
    obtain i j where ij: "y = (i, j)" by (cases y)
    have "i < length g" "j < length (g ! i)" using y(1) ij by (simp_all add: set_nodes isNode_def)
    hence "cid (g ! i ! j) = (int i, int j)" using assms by (simp add: ids_ok_iff)
    thus "y = (nat r, nat c)" using y(2) ij by (auto simp add: cellAt_def)
  qed
  thus ?thesis using True by (simp add: getNode_def)
next
  case False
  have "find (\<lambda>p. cid (cellAt g p) = (r, c)) (nodes g) = None"
    unfolding find_None_iff
  proof (intro notI, elim exE conjE)
    fix y assume y: "y \<in> set (nodes g)" "cid (cellAt g y) = (r, c)"
    obtain i j where ij: "y = (i, j)" by (cases y)
    have n: "i < length g" "j < length (g ! i)" using y(1) ij by (simp_all add: set_nodes isNode_def)
    hence "cid (g ! i ! j) = (int i, int j)" using assms by (simp add: ids_ok_iff)
    hence "r = int i" "c = int j" using y(2) ij by (simp_all add: cellAt_def)
    with n False show False by (simp add: isNode_def)
  qed
  thus ?thesis using False by (simp add: getNode_def)
qed

lemma alive_ids_ok:
  "ids_ok g \<Longrightarrow> alive g r c =
     (0 \<le> r \<and> 0 \<le> c \<and> isNode g (nat r, nat c) \<and> truthy (data_alive (g ! nat r ! nat c)))"
  by (auto simp add: alive_def getNode_ids_ok getIsNodeAlive_def cellAt_def)

section \<open>What \<open>initGrid\<close> builds\<close>

lemma slice0_nat: "slice0 (int n) xs = take n xs"
  by (simp add: slice0_def)

lemma slice0_take: "\<exists>k. slice0 e xs = take k xs"
  by (auto simp: slice0_def)

lemma initRows_nat: "initRows (int R') g = take R' g @ replicate (R' - length g) []"
  by (auto simp: initRows_def Let_def slice0_nat nat_diff_distrib')

lemma initCols_nat:
  "initCols (int C') i row = take C' row @ map (newColumn i) [length row..<C']"
  by (auto simp: initCols_def Let_def slice0_nat)

lemma initRows_cases: "\<exists>k n. initRows r g = take k g @ replicate n []"
proof (cases "int (length g) > r")
  case True
  obtain k where "slice0 r g = take k g" using slice0_take by blast
  hence "initRows r g = take k g @ replicate 0 []" using True by (simp add: initRows_def)
  thus ?thesis by blast
next
  case False
  hence "initRows r g = take (length g) g @ replicate (nat (r - int (length g))) []"
    by (simp add: initRows_def)
  thus ?thesis by blast
qed

lemma initCols_cases:
  "\<exists>k m. initCols c i row = take k row @ map (newColumn i) [length (take k row)..<m]"
proof (cases "int (length row) > c")
  case True
  obtain k where "slice0 c row = take k row" using slice0_take by blast
  hence "initCols c i row = take k row @ map (newColumn i) [length (take k row)..<0]"
    using True by (simp add: initCols_def)
  thus ?thesis by blast
next
  case False
  hence "initCols c i row = take (length row) row @ map (newColumn i) [length (take (length row) row)..<nat c]"
    by (simp add: initCols_def)
  thus ?thesis by blast
qed

lemma length_initGrid: "length (initGrid h w g) = length (initRows (reqRows h) g)"
  by (simp add: initGrid_def Let_def)

lemma nth_initGrid:
  "i < length (initRows (reqRows h) g) \<Longrightarrow>
   initGrid h w g ! i = initCols (reqCols w) i (initRows (reqRows h) g ! i)"
  by (simp add: initGrid_def Let_def)

text \<open>Every cell of the resized grid is the cell that was at its place, or a new dead cell
  with the id of its place. This holds for every viewport, negative sides included.\<close>

lemma initGrid_cell:
  assumes "isNode (initGrid h w g) (i, j)"
  shows "(isNode g (i, j) \<and> initGrid h w g ! i ! j = g ! i ! j) \<or>
         initGrid h w g ! i ! j = newColumn i j"
proof -
  let ?rows = "initRows (reqRows h) g"
  have i: "i < length ?rows" using assms by (simp add: isNode_def length_initGrid)
  have row: "initGrid h w g ! i = initCols (reqCols w) i (?rows ! i)"
    using i by (rule nth_initGrid)
  obtain k n where kn: "?rows = take k g @ replicate n []" using initRows_cases by blast
  obtain k' m where k'm: "initCols (reqCols w) i (?rows ! i) =
      take k' (?rows ! i) @ map (newColumn i) [length (take k' (?rows ! i))..<m]"
    using initCols_cases by blast
  have j: "j < length (take k' (?rows ! i) @ map (newColumn i) [length (take k' (?rows ! i))..<m])"
    using assms row k'm by (simp add: isNode_def)
  show ?thesis
  proof (cases "j < length (take k' (?rows ! i))")
    case True
    hence jr: "j < length (?rows ! i)" "j < k'" by simp_all
    have cell: "initGrid h w g ! i ! j = ?rows ! i ! j"
      using True jr by (simp add: row k'm nth_append)
    have "i < length (take k g)"
    proof (rule ccontr)
      assume "\<not> i < length (take k g)"
      moreover have "i < length (take k g) + n" using i unfolding kn by (simp del: length_take)
      then have "i - length (take k g) < n" using \<open>\<not> i < length (take k g)\<close> by linarith
      ultimately have "?rows ! i = []" unfolding kn by (simp only: nth_append if_False nth_replicate)
      with jr show False by simp
    qed
    hence "?rows ! i = g ! i" "i < length g" using kn by (simp_all add: nth_append)
    thus ?thesis using cell jr by (simp add: isNode_def)
  next
    case False
    hence "initGrid h w g ! i ! j =
             map (newColumn i) [length (take k' (?rows ! i))..<m] ! (j - length (take k' (?rows ! i)))"
      by (simp only: row k'm nth_append if_False)
    also have "\<dots> = newColumn i j"
      using j False by (simp del: length_take)
    finally show ?thesis by simp
  qed
qed

lemma ids_ok_initGrid: "ids_ok g \<Longrightarrow> ids_ok (initGrid h w g)"
  unfolding ids_ok_iff
proof (intro allI impI)
  fix i j
  assume g: "\<forall>i<length g. \<forall>j<length (g ! i). cid (g ! i ! j) = (int i, int j)"
    and "i < length (initGrid h w g)" "j < length (initGrid h w g ! i)"
  hence "isNode (initGrid h w g) (i, j)" by (simp add: isNode_def)
  from initGrid_cell[OF this] g show "cid (initGrid h w g ! i ! j) = (int i, int j)"
    by (auto simp: isNode_def newColumn_def)
qed

lemma marker_ok_iff:
  "marker_ok g \<longleftrightarrow>
     (\<forall>p. isNode g p \<longrightarrow> data_alive (cellAt g p) = None \<or> data_alive (cellAt g p) = Some ''true'')"
  unfolding marker_ok_def list_all_length isNode_def cellAt_def by auto

lemma marker_ok_initGrid: "marker_ok g \<Longrightarrow> marker_ok (initGrid h w g)"
  unfolding marker_ok_iff
proof (intro allI impI)
  fix p
  assume g: "\<forall>p. isNode g p \<longrightarrow> data_alive (cellAt g p) = None \<or> data_alive (cellAt g p) = Some ''true''"
    and p: "isNode (initGrid h w g) p"
  obtain i j where ij: "p = (i, j)" by (cases p)
  from initGrid_cell[of h w g i j] p ij g[rule_format, of "(i, j)"]
  show "data_alive (cellAt (initGrid h w g) p) = None \<or>
        data_alive (cellAt (initGrid h w g) p) = Some ''true''"
    by (auto simp: cellAt_def newColumn_def)
qed

lemma shape_initGrid:
  assumes "reqRows h = int R'" and "reqCols w = int C'"
  shows "shape R' C' (initGrid h w g)"
proof -
  have len: "length (initGrid h w g) = R'"
    by (simp add: length_initGrid assms initRows_nat)
  have "length (initGrid h w g ! i) = C'" if "i < R'" for i
  proof -
    have "i < length (initRows (reqRows h) g)" using that by (simp add: assms initRows_nat)
    from nth_initGrid[OF this] show ?thesis by (simp add: assms initCols_nat)
  qed
  with len show ?thesis by (simp add: shape_def list_all_length)
qed

lemma initGrid_nth:
  assumes "reqRows h = int R'" and "reqCols w = int C'" and "i < R'" and "j < C'"
  shows "initGrid h w g ! i ! j = (if isNode g (i, j) then g ! i ! j else newColumn i j)"
proof -
  have i: "i < length (initRows (reqRows h) g)" using assms by (simp add: initRows_nat)
  have row: "initGrid h w g ! i = initCols (int C') i (initRows (int R') g ! i)"
    using nth_initGrid[OF i] assms by simp
  have rows: "initRows (int R') g ! i = (if i < length g then g ! i else [])"
    using assms(3) by (auto simp: initRows_nat nth_append)
  show ?thesis
    using assms(3,4) by (auto simp: row rows initCols_nat nth_append isNode_def)
qed

section \<open>Writing one cell\<close>

lemma length_updCell: "length (updCell f p g) = length g"
  by (simp add: updCell_def)

lemma nth_updCell:
  "updCell f p g ! i =
     (if i = fst p \<and> fst p < length g then (g ! i)[snd p := f (g ! i ! snd p)] else g ! i)"
proof (cases "fst p < length g")
  case True
  thus ?thesis by (simp add: updCell_def nth_list_update)
next
  case False
  hence "g[fst p := (g ! fst p)[snd p := f (g ! fst p ! snd p)]] = g"
    by (simp add: list_update_beyond)
  thus ?thesis using False by (simp add: updCell_def)
qed

lemma length_nth_updCell: "length (updCell f p g ! i) = length (g ! i)"
  by (simp add: nth_updCell)

lemma isNode_updCell: "isNode (updCell f p g) q = isNode g q"
  by (simp add: isNode_def length_updCell length_nth_updCell)

lemma cellAt_updCell:
  assumes "isNode g q"
  shows "cellAt (updCell f p g) q = (if q = p then f (cellAt g p) else cellAt g q)"
proof (cases "q = p")
  case True
  thus ?thesis using assms by (simp add: cellAt_def nth_updCell isNode_def)
next
  case False
  hence "fst q \<noteq> fst p \<or> snd q \<noteq> snd p" by (auto simp: prod_eq_iff)
  thus ?thesis using False by (auto simp: cellAt_def nth_updCell)
qed

lemma ids_ok_nodes:
  "ids_ok g \<longleftrightarrow> (\<forall>p. isNode g p \<longrightarrow> cid (cellAt g p) = (int (fst p), int (snd p)))"
  by (simp add: ids_ok_def list_all_iff set_nodes)

lemma ids_ok_updCell:
  assumes f: "\<And>c. cid (f c) = cid c" and g: "ids_ok g"
  shows "ids_ok (updCell f p g)"
  unfolding ids_ok_nodes
proof (intro allI impI)
  fix q assume "isNode (updCell f p g) q"
  hence q: "isNode g q" by (simp add: isNode_updCell)
  hence "cid (cellAt g q) = (int (fst q), int (snd q))"
    using g[unfolded ids_ok_nodes] by blast
  thus "cid (cellAt (updCell f p g) q) = (int (fst q), int (snd q))"
    using q f by (auto simp: cellAt_updCell)
qed

lemma marker_ok_updCell:
  assumes f: "\<And>c. data_alive (f c) = None \<or> data_alive (f c) = Some ''true''"
    and g: "marker_ok g"
  shows "marker_ok (updCell f p g)"
  unfolding marker_ok_iff
proof (intro allI impI)
  fix q assume "isNode (updCell f p g) q"
  hence q: "isNode g q" by (simp add: isNode_updCell)
  hence "data_alive (cellAt g q) = None \<or> data_alive (cellAt g q) = Some ''true''"
    using g[unfolded marker_ok_iff] by blast
  thus "data_alive (cellAt (updCell f p g) q) = None \<or>
        data_alive (cellAt (updCell f p g) q) = Some ''true''"
    using q f[of "cellAt g p"] by (auto simp: cellAt_updCell)
qed

lemma ids_ok_removeAttribute: "ids_ok g \<Longrightarrow> ids_ok (removeAttribute p g)"
  by (simp add: removeAttribute_def ids_ok_updCell)

lemma ids_ok_setAlive: "ids_ok g \<Longrightarrow> ids_ok (setAlive p g)"
  by (simp add: setAlive_def ids_ok_updCell)

lemma marker_ok_removeAttribute: "marker_ok g \<Longrightarrow> marker_ok (removeAttribute p g)"
  by (simp add: removeAttribute_def marker_ok_updCell)

lemma marker_ok_setAlive: "marker_ok g \<Longrightarrow> marker_ok (setAlive p g)"
  by (simp add: setAlive_def marker_ok_updCell)

section \<open>What the operations keep\<close>

lemma outcome_simps [simp]: "outcome (Inl (e, g)) = g" "outcome (Inr g) = g"
  by (simp_all add: outcome_def)

text \<open>What both writes keep, the two final loops keep, whether they return or throw.\<close>

lemma killAll_preserves:
  assumes "\<And>p g. P g \<Longrightarrow> P (removeAttribute p g)"
  shows "P g \<Longrightarrow> P (outcome (killAll ns g))"
  by (induction ns g rule: killAll.induct) (simp_all add: assms)

lemma resurrectAll_preserves:
  assumes "\<And>p g. P g \<Longrightarrow> P (setAlive p g)"
  shows "P g \<Longrightarrow> P (outcome (resurrectAll ns g))"
  by (induction ns g rule: resurrectAll.induct) (simp_all add: assms)

lemma applyLists_preserves:
  assumes kill: "\<And>p g. P g \<Longrightarrow> P (removeAttribute p g)"
    and res: "\<And>p g. P g \<Longrightarrow> P (setAlive p g)"
    and g: "P g"
  shows "P (outcome (applyLists acc g))"
proof (cases "killAll (nodesToKill acc) g")
  case (Inl e)
  have "P (outcome (killAll (nodesToKill acc) g))" using kill g by (rule killAll_preserves)
  thus ?thesis using Inl by (simp add: applyLists_def)
next
  case (Inr g1)
  have "P (outcome (killAll (nodesToKill acc) g))" using kill g by (rule killAll_preserves)
  hence "P g1" using Inr by simp
  with res have "P (outcome (resurrectAll (nodesToResurrect acc) g1))"
    by (rule resurrectAll_preserves)
  thus ?thesis using Inr by (simp add: applyLists_def)
qed

lemma render_preserves:
  assumes "\<And>p g. P g \<Longrightarrow> P (removeAttribute p g)"
    and "\<And>p g. P g \<Longrightarrow> P (setAlive p g)"
    and "P g"
  shows "P (outcome (render g))" and "P (outcome (render_p0 g))"
  using applyLists_preserves[of P, OF assms] assms(3)
  by (auto simp add: render_def render_p0_def)

lemma ids_ok_clear: "ids_ok g \<Longrightarrow> ids_ok (map (map clearCell) g)"
  by (simp add: ids_ok_iff clearCell_def)

lemma marker_ok_clear: "marker_ok g \<Longrightarrow> marker_ok (map (map clearCell) g)"
  by (auto simp add: marker_ok_def list_all_iff clearCell_def)

lemma ids_ok_onmousedown: "ids_ok g \<Longrightarrow> ids_ok (column_onmousedown p g)"
  by (simp add: column_onmousedown_def ids_ok_removeAttribute ids_ok_setAlive)

lemma marker_ok_onmousedown: "marker_ok g \<Longrightarrow> marker_ok (column_onmousedown p g)"
  by (simp add: column_onmousedown_def marker_ok_removeAttribute marker_ok_setAlive)

lemma ids_ok_onmouseenter: "ids_ok g \<Longrightarrow> ids_ok (column_onmouseenter dt p g)"
  by (simp add: column_onmouseenter_def ids_ok_removeAttribute ids_ok_setAlive)

lemma marker_ok_onmouseenter: "marker_ok g \<Longrightarrow> marker_ok (column_onmouseenter dt p g)"
  by (simp add: column_onmouseenter_def marker_ok_removeAttribute marker_ok_setAlive)

lemma grid_pause [simp]: "grid (pause s) = grid s"
  by (simp add: pause_def)

lemma grid_play [simp]: "grid (play s) = grid s"
  by (simp add: play_def)

lemma grid_dragBody [simp]: "grid (dragBody b t s) = grid s"
  by (simp add: dragBody_def split: option.splits)

lemma grid_drag [simp]: "grid (drag f b t s) = grid s"
  by (cases f) (simp_all add: drag_def onDrag_def onDrag_p0_def)

lemma grid_fire:
  "grid (fire f e s) =
     (case e of
        PlayClick \<Rightarrow> grid s
      | ClearClick \<Rightarrow> map (map clearCell) (grid s)
      | Resize h w \<Rightarrow> initGrid h w (grid s)
      | MouseDown None \<Rightarrow> grid s
      | MouseDown (Some p) \<Rightarrow> column_onmousedown p (grid s)
      | MouseEnter p \<Rightarrow> column_onmouseenter (dragType s) p (grid s)
      | Tick \<Rightarrow> outcome (case f of GameJs \<Rightarrow> render (grid s) | Part000 \<Rightarrow> render_p0 (grid s))
      | _ \<Rightarrow> grid s)"
  by (cases e) (auto simp: playBtn_click_def clearBtn_onclick_def Let_def tick_def
      split: option.splits)

lemma ids_ok_fire: "ids_ok (grid s) \<Longrightarrow> ids_ok (grid (fire f e s))"
  by (cases f)
    (auto simp: grid_fire ids_ok_clear ids_ok_initGrid ids_ok_onmousedown ids_ok_onmouseenter
      intro: render_preserves ids_ok_removeAttribute ids_ok_setAlive
      split: event.splits option.splits)

lemma marker_ok_fire: "marker_ok (grid s) \<Longrightarrow> marker_ok (grid (fire f e s))"
  by (cases f)
    (auto simp: grid_fire marker_ok_clear marker_ok_initGrid marker_ok_onmousedown
      marker_ok_onmouseenter
      intro: render_preserves marker_ok_removeAttribute marker_ok_setAlive
      split: event.splits option.splits)

lemma single_source_pause: "single_source s \<Longrightarrow> single_source (pause s)"
  by (auto simp: single_source_def pause_def clearInterval_def split: option.splits)

lemma pause_fields [simp]:
  "intervalId (pause s) = None"
  "dragType (pause s) = dragType s"
  by (simp_all add: pause_def)

lemma single_source_dragBody: "single_source s \<Longrightarrow> single_source (dragBody b t s)"
  by (auto simp: single_source_def dragBody_def split: option.splits)

lemma single_source_fire: "single_source s \<Longrightarrow> single_source (fire f e s)"
proof (cases e)
  case PlayClick
  assume "single_source s"
  thus ?thesis using PlayClick
    by (auto simp: single_source_def playBtn_click_def play_def pause_def clearInterval_def
        split: option.splits)
next
  case ClearClick
  assume "single_source s"
  hence "single_source (pause s)" by (rule single_source_pause)
  thus ?thesis using ClearClick by (simp add: single_source_def clearBtn_onclick_def Let_def)
next
  case (MouseDown t)
  assume "single_source s"
  hence "single_source (s\<lparr>grid := g\<rparr>)" for g by (simp add: single_source_def)
  thus ?thesis using MouseDown \<open>single_source s\<close>
    by (cases f; cases t)
       (simp_all add: drag_def onDrag_def onDrag_p0_def single_source_dragBody single_source_pause)
qed (cases f; simp add: single_source_def tick_def drag_def onDrag_def onDrag_p0_def
      single_source_dragBody[unfolded single_source_def] single_source_pause[unfolded single_source_def])+

lemma ids_ok_Nil [simp]: "ids_ok []"
  by (simp add: ids_ok_def nodes_def)

lemma marker_ok_Nil [simp]: "marker_ok []"
  by (simp add: marker_ok_def)

text \<open>In every reachable state the cells sit where their ids say, every marker is \<open>true\<close>
  or absent, and the only interval that is set is the one the game remembers.\<close>

lemma reachable_inv:
  "reachable f s \<Longrightarrow> ids_ok (grid s) \<and> marker_ok (grid s) \<and> single_source s"
proof (induction rule: reachable.induct)
  case (start height width)
  show ?case
    by (simp add: init_def ids_ok_initGrid marker_ok_initGrid single_source_def)
next
  case (step s e)
  thus ?case by (simp add: ids_ok_fire marker_ok_fire single_source_fire)
qed

section \<open>Reading after a resize, pressing a cell twice\<close>

lemma isNode_shape: "shape R C g \<Longrightarrow> isNode g (i, j) \<longleftrightarrow> i < R \<and> j < C"
  by (auto simp: shape_def isNode_def list_all_length)

lemma initGrid_alive:
  assumes "ids_ok g" and "reqRows height = int R'" and "reqCols width = int C'"
  shows "alive (initGrid height width g) r c = (alive g r c \<and> r < int R' \<and> c < int C')"
proof -
  let ?g = "initGrid height width g"
  have ok: "ids_ok ?g" using assms(1) by (rule ids_ok_initGrid)
  have sh: "shape R' C' ?g" using assms(2,3) by (rule shape_initGrid)
  show ?thesis
  proof (cases "0 \<le> r \<and> 0 \<le> c \<and> nat r < R' \<and> nat c < C'")
    case True
    hence "?g ! nat r ! nat c =
             (if isNode g (nat r, nat c) then g ! nat r ! nat c else newColumn (nat r) (nat c))"
      using assms(2,3) by (simp add: initGrid_nth)
    thus ?thesis using True
      by (auto simp: alive_ids_ok[OF ok] alive_ids_ok[OF assms(1)] isNode_shape[OF sh] newColumn_def)
  next
    case False
    thus ?thesis
      by (auto simp: alive_ids_ok[OF ok] alive_ids_ok[OF assms(1)] isNode_shape[OF sh])
  qed
qed


lemma updCell_same:
  assumes "isNode g p" and "f (cellAt g p) = cellAt g p"
  shows "updCell f p g = g"
  using assms by (simp add: updCell_def cellAt_def isNode_def)

lemma updCell_twice:
  assumes "isNode g p"
  shows "updCell f2 p (updCell f1 p g) = updCell (\<lambda>c. f2 (f1 c)) p g"
  using assms by (simp add: updCell_def isNode_def)

lemma onmousedown_twice:
  assumes "isNode g p"
    and "data_alive (cellAt g p) = None \<or> data_alive (cellAt g p) = Some ''true''"
  shows "column_onmousedown p (column_onmousedown p g) = g"
proof (cases "data_alive (cellAt g p) = Some ''true''")
  case True
  hence 1: "column_onmousedown p g = removeAttribute p g" by (simp add: column_onmousedown_def)
  have "data_alive (cellAt (removeAttribute p g) p) = None"
    using assms(1) by (simp add: removeAttribute_def cellAt_updCell)
  hence "column_onmousedown p (removeAttribute p g) = setAlive p (removeAttribute p g)"
    by (simp add: column_onmousedown_def)
  also have "\<dots> = updCell (\<lambda>c. c\<lparr>data_alive := Some ''true''\<rparr>) p g"
    using assms(1) by (simp add: setAlive_def removeAttribute_def updCell_twice)
  also have "\<dots> = g" using assms(1) True by (intro updCell_same) simp_all
  finally show ?thesis using 1 by simp
next
  case False
  hence none: "data_alive (cellAt g p) = None" using assms(2) by blast
  hence 1: "column_onmousedown p g = setAlive p g" by (simp add: column_onmousedown_def)
  have "data_alive (cellAt (setAlive p g) p) = Some ''true''"
    using assms(1) by (simp add: setAlive_def cellAt_updCell)
  hence "column_onmousedown p (setAlive p g) = removeAttribute p (setAlive p g)"
    by (simp add: column_onmousedown_def)
  also have "\<dots> = updCell (\<lambda>c. c\<lparr>data_alive := None\<rparr>) p g"
    using assms(1) by (simp add: setAlive_def removeAttribute_def updCell_twice)
  also have "\<dots> = g" using assms(1) none by (intro updCell_same) simp_all
  finally show ?thesis using 1 by simp
qed

lemma isNode_onmousedown: "isNode (column_onmousedown p g) q = isNode g q"
  by (simp add: column_onmousedown_def removeAttribute_def setAlive_def isNode_updCell)


section \<open>The clock\<close>

lemma marker_tests_agree:
  "data_alive c = None \<or> data_alive c = Some ''true'' \<Longrightarrow>
   truthy (data_alive c) = (data_alive c = Some ''true'')"
  by auto


lemma pause_stopped: "intervalId s = None \<Longrightarrow> pause s = s"
  by (simp add: pause_def clearInterval_def)

lemma intervals_pause: "single_source s \<Longrightarrow> intervals (pause s) = {}"
  by (auto simp: single_source_def pause_def clearInterval_def split: option.splits)

lemma clock_dragBody [simp]:
  "intervalId (dragBody b t s) = intervalId s"
  "intervals (dragBody b t s) = intervals s"
  by (simp_all add: dragBody_def split: option.splits)


section \<open>The coordinates of the full scan\<close>

lemma scanned_mem:
  assumes "j < colsLength" and "i < rowsLength"
  shows "(int i, int j) \<in> set (scanned colsLength rowsLength)"
proof -
  have "(int i, int j) \<in> set (map (\<lambda>rowIdx. (int rowIdx, int j)) [0..<rowsLength])"
    using assms(2) by simp
  moreover have "map (\<lambda>rowIdx. (int rowIdx, int j)) [0..<rowsLength]
      \<in> set (map (\<lambda>colIdx. map (\<lambda>rowIdx. (int rowIdx, int colIdx)) [0..<rowsLength]) [0..<colsLength])"
    using assms(1) by (auto intro!: image_eqI[where x = j])
  ultimately show ?thesis unfolding scanned_def set_concat by blast
qed

text \<open>The two loops of \<open>render\<close> in game.js visit every pair below their bounds once. The
  first component, the row of the id, runs below \<open>rowsLength\<close>; the second below
  \<open>colsLength\<close>.\<close>

lemma set_scanned:
  "set (scanned colsLength rowsLength) =
     {(r, c). 0 \<le> r \<and> r < int rowsLength \<and> 0 \<le> c \<and> c < int colsLength}"
proof -
  have "(r, c) \<in> set (scanned colsLength rowsLength) \<longleftrightarrow>
          0 \<le> r \<and> r < int rowsLength \<and> 0 \<le> c \<and> c < int colsLength" for r c
  proof
    assume "(r, c) \<in> set (scanned colsLength rowsLength)"
    thus "0 \<le> r \<and> r < int rowsLength \<and> 0 \<le> c \<and> c < int colsLength"
      by (auto simp: scanned_def)
  next
    assume a: "0 \<le> r \<and> r < int rowsLength \<and> 0 \<le> c \<and> c < int colsLength"
    have "nat c < colsLength" using a by (simp add: nat_less_iff)
    moreover have "nat r < rowsLength" using a by (simp add: nat_less_iff)
    ultimately have "(int (nat r), int (nat c)) \<in> set (scanned colsLength rowsLength)"
      by (rule scanned_mem)
    thus "(r, c) \<in> set (scanned colsLength rowsLength)" using a by simp
  qed
  thus ?thesis by auto
qed

lemma scanned_Suc:
  "scanned (Suc n) m = scanned n m @ map (\<lambda>rowIdx. (int rowIdx, int n)) [0..<m]"
  by (simp add: scanned_def)

lemma distinct_scanned: "distinct (scanned colsLength rowsLength)"
proof (induction colsLength)
  case 0
  show ?case by (simp add: scanned_def)
next
  case (Suc n)
  have d: "distinct (map (\<lambda>rowIdx. (int rowIdx, int n)) [0..<rowsLength])"
    by (simp add: distinct_map inj_on_def)
  have "x \<in> set (scanned n rowsLength) \<Longrightarrow>
        x \<notin> set (map (\<lambda>rowIdx. (int rowIdx, int n)) [0..<rowsLength])" for x
  proof
    assume "x \<in> set (scanned n rowsLength)"
    hence "snd x < int n" unfolding set_scanned by auto
    moreover assume "x \<in> set (map (\<lambda>rowIdx. (int rowIdx, int n)) [0..<rowsLength])"
    hence "snd x = int n" by auto
    ultimately show False by simp
  qed
  hence "set (scanned n rowsLength) \<inter>
         set (map (\<lambda>rowIdx. (int rowIdx, int n)) [0..<rowsLength]) = {}" by blast
  with d Suc show ?case by (simp only: scanned_Suc distinct_append)
qed

section \<open>The step of the second file returns\<close>

lemma killAll_Some: "killAll (map Some ps) g = Inr (fold removeAttribute ps g)"
  by (induction ps arbitrary: g) simp_all

lemma resurrectAll_Some: "resurrectAll (map Some ps) g = Inr (fold setAlive ps g)"
  by (induction ps arbitrary: g) simp_all

lemma applyLists_Some:
  "applyLists \<lparr>nodesToKill = map Some ks, nodesToResurrect = map Some rs\<rparr> g =
     Inr (fold setAlive rs (fold removeAttribute ks g))"
  by (simp add: applyLists_def killAll_Some resurrectAll_Some)

lemma no_null_rule: "no_null acc \<Longrightarrow> no_null (rule (Some node) a n acc)"
  by (simp add: no_null_def rule_def)

lemma check_p0_False:
  "check_p0 g node False w =
     (if cid (cellAt g node) \<in> seen w then w
      else w\<lparr>seen := insert (cid (cellAt g node)) (seen w),
             found := rule (Some node) (getIsNodeAlive g (Some node))
                (length (filter (getIsNodeAlive g)
                   (filter (\<lambda>n. n \<noteq> None)
                      (neighbors g (fst (cid (cellAt g node))) (snd (cid (cellAt g node)))))))
                (found w)\<rparr>)"
  by (simp add: check_p0.simps[of g node False w] Let_def)

lemma check_p0_True:
  "check_p0 g node True w =
     (if cid (cellAt g node) \<in> seen w then w
      else
        let w1 = fold (\<lambda>c. check_p0 g (the c) False)
                   (filter (\<lambda>n. n \<noteq> None)
                      (neighbors g (fst (cid (cellAt g node))) (snd (cid (cellAt g node))))) w
        in w1\<lparr>seen := insert (cid (cellAt g node)) (seen w1),
               found := rule (Some node) (getIsNodeAlive g (Some node))
                (length (filter (getIsNodeAlive g)
                   (filter (\<lambda>n. n \<noteq> None)
                      (neighbors g (fst (cid (cellAt g node))) (snd (cid (cellAt g node)))))))
                (found w1)\<rparr>)"
  by (simp add: check_p0.simps[of g node True w] Let_def)

lemma no_null_check_False: "no_null (found w) \<Longrightarrow> no_null (found (check_p0 g node False w))"
  by (simp add: check_p0_False no_null_rule)

lemma no_null_fold_check:
  "no_null (found w) \<Longrightarrow> no_null (found (fold (\<lambda>c. check_p0 g (the c) False) ns w))"
  by (induction ns arbitrary: w) (simp_all add: no_null_check_False)

lemma no_null_check_True: "no_null (found w) \<Longrightarrow> no_null (found (check_p0 g node True w))"
  by (simp add: check_p0_True Let_def no_null_rule no_null_fold_check)

lemma no_null_walk: "no_null (found (walk_p0 g))"
proof -
  have "no_null (found w) \<Longrightarrow> no_null (found (fold (\<lambda>node. check_p0 g node True) ps w))"
    for ps w
    by (induction ps arbitrary: w) (simp_all add: no_null_check_True)
  thus ?thesis by (simp add: walk_p0_def no_null_def)
qed

lemma killAll_no_null: "None \<notin> set ns \<Longrightarrow> \<exists>g'. killAll ns g = Inr g'"
  by (induction ns g rule: killAll.induct) simp_all

lemma resurrectAll_no_null: "None \<notin> set ns \<Longrightarrow> \<exists>g'. resurrectAll ns g = Inr g'"
  by (induction ns g rule: resurrectAll.induct) simp_all

text \<open>\<open>check\<close> pushes the node it was called with, never \<open>null\<close>, so the step of the second
  file returns on every grid.\<close>

lemma render_p0_returns: "\<exists>g'. render_p0 g = Inr g'"
proof -
  have n: "no_null (found (walk_p0 g))" by (rule no_null_walk)
  then obtain g1 where "killAll (nodesToKill (found (walk_p0 g))) g = Inr g1"
    using killAll_no_null unfolding no_null_def by blast
  moreover obtain g2 where "resurrectAll (nodesToResurrect (found (walk_p0 g))) g1 = Inr g2"
    using n resurrectAll_no_null unfolding no_null_def by blast
  ultimately show ?thesis by (simp add: render_p0_def applyLists_def)
qed

section \<open>The full scan and the rule\<close>

lemma visit_cases:
  "visit g r c acc =
     \<lparr>nodesToKill = nodesToKill acc @ (if dies g (r, c) then [getNode g r c] else []),
      nodesToResurrect = nodesToResurrect acc @ (if born g (r, c) then [getNode g r c] else [])\<rparr>"
  by (simp add: visit_def rule_def Let_def dies_def born_def alive_def aliveCount_def)

lemma fold_visit:
  "fold (\<lambda>(rowIdx, colIdx). visit g rowIdx colIdx) xs acc =
     \<lparr>nodesToKill = nodesToKill acc @ map (\<lambda>(r, c). getNode g r c) (filter (dies g) xs),
      nodesToResurrect =
        nodesToResurrect acc @ map (\<lambda>(r, c). getNode g r c) (filter (born g) xs)\<rparr>"
proof (induction xs arbitrary: acc)
  case Nil
  show ?case by simp
next
  case (Cons x xs)
  obtain r c where x: "x = (r, c)" by (cases x)
  have "fold (\<lambda>(rowIdx, colIdx). visit g rowIdx colIdx) (x # xs) acc =
        fold (\<lambda>(rowIdx, colIdx). visit g rowIdx colIdx) xs (visit g r c acc)"
    by (simp add: x)
  also have "\<dots> =
     \<lparr>nodesToKill = nodesToKill (visit g r c acc) @
        map (\<lambda>(r, c). getNode g r c) (filter (dies g) xs),
      nodesToResurrect = nodesToResurrect (visit g r c acc) @
        map (\<lambda>(r, c). getNode g r c) (filter (born g) xs)\<rparr>"
    by (rule Cons)
  also have "\<dots> =
     \<lparr>nodesToKill = nodesToKill acc @ map (\<lambda>(r, c). getNode g r c) (filter (dies g) (x # xs)),
      nodesToResurrect =
        nodesToResurrect acc @ map (\<lambda>(r, c). getNode g r c) (filter (born g) (x # xs))\<rparr>"
    by (simp add: visit_cases x)
  finally show ?case .
qed

text \<open>The two arrays after the loops of game.js: the nodes, or \<open>null\<close>, of the visited
  coordinates that die and that are born, in the order of the visit.\<close>

lemma scan_lists:
  "scan g =
     \<lparr>nodesToKill = map (\<lambda>(r, c). getNode g r c)
        (filter (dies g) (scanned (length g) (length (g ! 0)))),
      nodesToResurrect = map (\<lambda>(r, c). getNode g r c)
        (filter (born g) (scanned (length g) (length (g ! 0))))\<rparr>"
  by (simp add: scan_def Let_def fold_visit)

lemma killAll_Inr:
  "killAll ns g = Inr g' \<Longrightarrow> None \<notin> set ns \<and> g' = fold removeAttribute (map the ns) g"
  by (induction ns g rule: killAll.induct) simp_all

lemma resurrectAll_Inr:
  "resurrectAll ns g = Inr g' \<Longrightarrow> None \<notin> set ns \<and> g' = fold setAlive (map the ns) g"
  by (induction ns g rule: resurrectAll.induct) simp_all

lemma applyLists_Inr:
  assumes "applyLists acc g = Inr g'"
  shows "None \<notin> set (nodesToKill acc) \<and> None \<notin> set (nodesToResurrect acc) \<and>
         g' = fold setAlive (map the (nodesToResurrect acc))
                (fold removeAttribute (map the (nodesToKill acc)) g)"
proof (cases "killAll (nodesToKill acc) g")
  case (Inl e)
  with assms show ?thesis by (simp add: applyLists_def)
next
  case (Inr g1)
  hence "resurrectAll (nodesToResurrect acc) g1 = Inr g'" using assms by (simp add: applyLists_def)
  with killAll_Inr[OF Inr] resurrectAll_Inr show ?thesis by blast
qed

lemma isNode_fold_updCell: "isNode (fold (updCell f) ps g) q = isNode g q"
  by (induction ps arbitrary: g) (simp_all add: isNode_updCell)

lemma cellAt_fold_updCell:
  assumes "isNode g q" and "\<And>c. f (f c) = f c"
  shows "cellAt (fold (updCell f) ps g) q = (if q \<in> set ps then f (cellAt g q) else cellAt g q)"
  using assms(1)
proof (induction ps arbitrary: g)
  case Nil
  show ?case by simp
next
  case (Cons p ps)
  have "isNode (updCell f p g) q" using Cons.prems by (simp add: isNode_updCell)
  from Cons.IH[OF this] show ?case
    using Cons.prems assms(2) by (auto simp: cellAt_updCell)
qed

lemma cellAt_applied:
  assumes "isNode g q"
  shows "data_alive (cellAt (fold setAlive rs (fold removeAttribute ks g)) q) =
           (if q \<in> set rs then Some ''true''
            else if q \<in> set ks then None
            else data_alive (cellAt g q))"
proof -
  have 1: "isNode (fold removeAttribute ks g) q"
    using assms by (simp add: removeAttribute_def isNode_fold_updCell)
  show ?thesis
    unfolding setAlive_def removeAttribute_def
    using 1 assms
    by (simp add: cellAt_fold_updCell removeAttribute_def)
qed

lemma getNode_in_map:
  assumes "(r, c) \<in> set xs"
  shows "getNode g r c \<in> set (map (\<lambda>(r, c). getNode g r c) xs)"
proof -
  have "(\<lambda>(r, c). getNode g r c) (r, c) \<in> (\<lambda>(r, c). getNode g r c) ` set xs"
    using assms by (rule imageI)
  thus ?thesis by simp
qed

lemma getNode_not_None:
  assumes "None \<notin> set (map (\<lambda>(r, c). getNode g r c) xs)" and "(r, c) \<in> set xs"
  shows "getNode g r c \<noteq> None"
  using assms(1) getNode_in_map[OF assms(2), of g] by metis

lemma mem_targets:
  assumes ok: "ids_ok g"
    and nn: "None \<notin> set (map (\<lambda>(r, c). getNode g r c) xs)"
    and r: "0 \<le> r" and c: "0 \<le> c"
  shows "(nat r, nat c) \<in> set (map the (map (\<lambda>(r, c). getNode g r c) xs)) \<longleftrightarrow> (r, c) \<in> set xs"
proof
  assume "(nat r, nat c) \<in> set (map the (map (\<lambda>(r, c). getNode g r c) xs))"
  then obtain r' c' where x: "(r', c') \<in> set xs" and e: "the (getNode g r' c') = (nat r, nat c)"
    by auto
  have "getNode g r' c' \<noteq> None" using nn x by (rule getNode_not_None)
  hence "getNode g r' c' = Some (nat r', nat c') \<and> 0 \<le> r' \<and> 0 \<le> c'"
    by (simp add: getNode_ids_ok[OF ok] split: if_splits)
  with e r c have "r' = r" "c' = c" by (auto simp: nat_eq_iff)
  with x show "(r, c) \<in> set xs" by simp
next
  assume x: "(r, c) \<in> set xs"
  hence "getNode g r c \<noteq> None" using nn by (intro getNode_not_None)
  hence "the (getNode g r c) = (nat r, nat c)"
    by (simp add: getNode_ids_ok[OF ok] split: if_splits)
  thus "(nat r, nat c) \<in> set (map the (map (\<lambda>(r, c). getNode g r c) xs))"
    using getNode_in_map[OF x, of g] by (simp only: set_map) (metis imageI option.sel)
qed

text \<open>When \<open>render\<close> of game.js returns, every visited coordinate has the state the rule
  gives it from the counts before the step, and every other cell is unchanged.\<close>

lemma render_returns_rule:
  assumes ok: "ids_ok g" and ret: "render g = Inr g'"
  shows "alive g' r c =
           (if (r, c) \<in> set (scanned (length g) (length (g ! 0)))
            then B3S23 (alive g r c) (aliveCount g r c)
            else alive g r c)"
proof -
  let ?S = "scanned (length g) (length (g ! 0))"
  let ?ks = "map (\<lambda>(r, c). getNode g r c) (filter (dies g) ?S)"
  let ?rs = "map (\<lambda>(r, c). getNode g r c) (filter (born g) ?S)"
  have app: "applyLists (scan g) g = Inr g'" using ret by (simp add: render_def split: if_splits)
  note a = applyLists_Inr[OF app, unfolded scan_lists, simplified]
  have nk: "None \<notin> set ?ks" and nr: "None \<notin> set ?rs"
    and g': "g' = fold setAlive (map the ?rs) (fold removeAttribute (map the ?ks) g)"
    using a by simp_all
  have "g' = outcome (render g)" using ret by simp
  hence ok': "ids_ok g'"
    using render_preserves(1)[of ids_ok, OF ids_ok_removeAttribute ids_ok_setAlive ok] by simp
  have node: "isNode g' q = isNode g q" for q
    unfolding g' setAlive_def removeAttribute_def by (simp add: isNode_fold_updCell)
  show ?thesis
  proof (cases "0 \<le> r \<and> 0 \<le> c \<and> isNode g (nat r, nat c)")
    case True
    hence r: "0 \<le> r" and c: "0 \<le> c" and q: "isNode g (nat r, nat c)" by simp_all
    have inr: "(nat r, nat c) \<in> set (map the ?rs) \<longleftrightarrow> (r, c) \<in> set ?S \<and> born g (r, c)"
      using mem_targets[OF ok nr r c] by simp
    have ink: "(nat r, nat c) \<in> set (map the ?ks) \<longleftrightarrow> (r, c) \<in> set ?S \<and> dies g (r, c)"
      using mem_targets[OF ok nk r c] by simp
    have cell: "data_alive (cellAt g' (nat r, nat c)) =
        (if (r, c) \<in> set ?S \<and> born g (r, c) then Some ''true''
         else if (r, c) \<in> set ?S \<and> dies g (r, c) then None
         else data_alive (cellAt g (nat r, nat c)))"
      unfolding g' by (simp only: cellAt_applied[OF q] inr ink)
    have al: "alive g r c = truthy (data_alive (cellAt g (nat r, nat c)))"
      using True by (simp add: alive_ids_ok[OF ok] cellAt_def)
    have al': "alive g' r c = truthy (data_alive (cellAt g' (nat r, nat c)))"
      using True by (simp add: alive_ids_ok[OF ok'] node cellAt_def)
    show ?thesis
      unfolding al' cell using al
      by (auto simp: born_def dies_def B3S23_def)
  next
    case False
    hence d: "\<not> alive g r c" "\<not> alive g' r c"
      by (auto simp: alive_ids_ok[OF ok] alive_ids_ok[OF ok'] node)
    have "\<not> born g (r, c)" if "(r, c) \<in> set ?S"
    proof
      assume "born g (r, c)"
      hence "getNode g r c \<in> set ?rs" using that by (intro getNode_in_map) simp
      moreover have "getNode g r c = None" using False by (simp add: getNode_ids_ok[OF ok])
      ultimately show False using nr by simp
    qed
    thus ?thesis using d by (auto simp: born_def B3S23_def)
  qed
qed

text \<open>On a grid with as many rows as columns, and at least one, \<open>render\<close> of game.js
  returns and is the rule on the whole grid.\<close>

lemma render_square:
  assumes sh: "shape n n g" and n: "0 < n" and ok: "ids_ok g"
  shows "\<exists>g'. render g = Inr g' \<and>
           (\<forall>r c. alive g' r c =
              (0 \<le> r \<and> r < int n \<and> 0 \<le> c \<and> c < int n \<and>
               B3S23 (alive g r c) (aliveCount g r c)))"
proof -
  have len: "length g = n" "length (g ! 0) = n"
    using sh n by (simp_all add: shape_def list_all_length)
  have S: "set (scanned (length g) (length (g ! 0))) =
             {(r, c). 0 \<le> r \<and> r < int n \<and> 0 \<le> c \<and> c < int n}"
    by (simp add: len set_scanned)
  have some: "getNode g r c \<noteq> None" if "(r, c) \<in> set (scanned (length g) (length (g ! 0)))" for r c
    using that unfolding S
    by (simp add: getNode_ids_ok[OF ok] isNode_shape[OF sh] nat_less_iff)
  have nn: "None \<notin> set (map (\<lambda>(r, c). getNode g r c) (filter P (scanned (length g) (length (g ! 0)))))"
    for P
  proof
    assume "None \<in> set (map (\<lambda>(r, c). getNode g r c) (filter P (scanned (length g) (length (g ! 0)))))"
    then obtain r c where "(r, c) \<in> set (scanned (length g) (length (g ! 0)))" "getNode g r c = None"
      by auto
    with some show False by blast
  qed
  obtain g1 where k: "killAll (nodesToKill (scan g)) g = Inr g1"
    using killAll_no_null[of "nodesToKill (scan g)" g] nn by (auto simp: scan_lists)
  obtain g' where r: "resurrectAll (nodesToResurrect (scan g)) g1 = Inr g'"
    using resurrectAll_no_null[of "nodesToResurrect (scan g)" g1] nn by (auto simp: scan_lists)
  have "g \<noteq> []" using len n by auto
  hence ret: "render g = Inr g'" using k r by (simp add: render_def applyLists_def)
  have out: "\<not> alive g r c" if "\<not> (0 \<le> r \<and> r < int n \<and> 0 \<le> c \<and> c < int n)" for r c
    using that by (auto simp: alive_ids_ok[OF ok] isNode_shape[OF sh] nat_less_iff)
  have "alive g' r c =
          (0 \<le> r \<and> r < int n \<and> 0 \<le> c \<and> c < int n \<and> B3S23 (alive g r c) (aliveCount g r c))"
    for r c
    using render_returns_rule[OF ok ret, of r c] out[of r c] unfolding S by auto
  with ret show ?thesis by blast
qed

section \<open>The walk of the second file and the rule\<close>

lemma idOf_inj: "idOf p = idOf q \<longleftrightarrow> p = q"
  by (cases p; cases q) (simp add: idOf_def)

lemma cid_idOf: "ids_ok g \<Longrightarrow> isNode g p \<Longrightarrow> cid (cellAt g p) = idOf p"
  unfolding ids_ok_nodes idOf_def by blast

lemma alive_idOf:
  assumes "ids_ok g" and "isNode g p"
  shows "getIsNodeAlive g (Some p) = alive g (fst (idOf p)) (snd (idOf p))"
  using assms by (cases p) (simp add: alive_ids_ok getIsNodeAlive_def cellAt_def idOf_def)

lemma count_without_null:
  "length (filter (getIsNodeAlive g) (filter (\<lambda>n. n \<noteq> None) xs)) =
   length (filter (getIsNodeAlive g) xs)"
proof -
  have "(n \<noteq> None \<and> getIsNodeAlive g n) = getIsNodeAlive g n" for n
    by (cases n) (simp_all add: getIsNodeAlive_def)
  thus ?thesis by (simp add: filter_filter cong: filter_cong)
qed

lemma check_False_node:
  assumes ok: "ids_ok g" and p: "isNode g p"
  shows "check_p0 g p False w =
     (if idOf p \<in> seen w then w
      else w\<lparr>seen := insert (idOf p) (seen w),
             found := rule (Some p) (alive g (fst (idOf p)) (snd (idOf p)))
                        (aliveCount g (fst (idOf p)) (snd (idOf p))) (found w)\<rparr>)"
  by (simp only: check_p0_False cid_idOf[OF ok p] alive_idOf[OF ok p] count_without_null
      aliveCount_def)

lemma rule_lists:
  "rule (Some p) (alive g (fst i) (snd i)) (aliveCount g (fst i) (snd i)) acc =
     \<lparr>nodesToKill = nodesToKill acc @ (if dies g i then [Some p] else []),
      nodesToResurrect = nodesToResurrect acc @ (if born g i then [Some p] else [])\<rparr>"
  by (cases i) (simp add: rule_def dies_def born_def)

lemma walk_ok_step:
  assumes w: "walk_ok g w" and p: "isNode g p" and new: "idOf p \<notin> seen w"
  shows "walk_ok g (w\<lparr>seen := insert (idOf p) (seen w),
             found := rule (Some p) (alive g (fst (idOf p)) (snd (idOf p)))
                        (aliveCount g (fst (idOf p)) (snd (idOf p))) (found w)\<rparr>)"
proof -
  obtain ks rs where l: "nodesToKill (found w) = map Some ks" "nodesToResurrect (found w) = map Some rs"
    and ks: "set ks = {p. isNode g p \<and> idOf p \<in> seen w \<and> dies g (idOf p)}"
    and rs: "set rs = {p. isNode g p \<and> idOf p \<in> seen w \<and> born g (idOf p)}"
    using w unfolding walk_ok_def by blast
  let ?ks = "ks @ (if dies g (idOf p) then [p] else [])"
  let ?rs = "rs @ (if born g (idOf p) then [p] else [])"
  let ?w = "w\<lparr>seen := insert (idOf p) (seen w),
             found := rule (Some p) (alive g (fst (idOf p)) (snd (idOf p)))
                        (aliveCount g (fst (idOf p)) (snd (idOf p))) (found w)\<rparr>"
  have 1: "nodesToKill (found ?w) = map Some ?ks" by (simp add: rule_lists l)
  have 2: "nodesToResurrect (found ?w) = map Some ?rs" by (simp add: rule_lists l)
  have 3: "set ?ks = {q. isNode g q \<and> idOf q \<in> seen ?w \<and> dies g (idOf q)}"
    using p by (auto simp: ks idOf_inj)
  have 4: "set ?rs = {q. isNode g q \<and> idOf q \<in> seen ?w \<and> born g (idOf q)}"
    using p by (auto simp: rs idOf_inj)
  show ?thesis unfolding walk_ok_def using 1 2 3 4 by blast
qed

lemma walk_ok_check_False:
  assumes "ids_ok g" and "isNode g p" and "walk_ok g w"
  shows "walk_ok g (check_p0 g p False w)"
  using assms by (simp add: check_False_node walk_ok_step)

lemma seen_check_False:
  assumes "ids_ok g" and "isNode g p"
  shows "seen (check_p0 g p False w) = insert (idOf p) (seen w)"
  using assms by (auto simp: check_False_node)

lemma walk_ok_fold_False:
  assumes ok: "ids_ok g"
  shows "\<forall>c\<in>set ns. c \<noteq> None \<and> isNode g (the c) \<Longrightarrow> walk_ok g w \<Longrightarrow>
         walk_ok g (fold (\<lambda>c. check_p0 g (the c) False) ns w)"
  by (induction ns arbitrary: w) (simp_all add: walk_ok_check_False[OF ok])

lemma seen_fold_False:
  assumes ok: "ids_ok g"
  shows "\<forall>c\<in>set ns. c \<noteq> None \<and> isNode g (the c) \<Longrightarrow>
         seen (fold (\<lambda>c. check_p0 g (the c) False) ns w) = seen w \<union> idOf ` the ` set ns"
  by (induction ns arbitrary: w) (auto simp add: seen_check_False[OF ok])

lemma getNode_Some_node: "ids_ok g \<Longrightarrow> getNode g r c = Some p \<Longrightarrow> isNode g p"
  by (auto simp: getNode_ids_ok split: if_splits)

lemma neighbors_getNode: "n \<in> set (neighbors g r c) \<Longrightarrow> \<exists>r' c'. n = getNode g r' c'"
  unfolding neighbors_def by (simp only: set_simps insert_iff empty_iff) blast

lemma neighborsArr_nodes:
  assumes "ids_ok g"
  shows "\<forall>c\<in>set (filter (\<lambda>n. n \<noteq> None) (neighbors g r c')). c \<noteq> None \<and> isNode g (the c)"
proof
  fix n assume "n \<in> set (filter (\<lambda>n. n \<noteq> None) (neighbors g r c'))"
  hence n: "n \<in> set (neighbors g r c')" "n \<noteq> None" by simp_all
  then obtain r' c'' where "n = getNode g r' c''" using neighbors_getNode by blast
  thus "n \<noteq> None \<and> isNode g (the n)" using n(2) getNode_Some_node[OF assms] by auto
qed

lemma check_True_node:
  assumes ok: "ids_ok g" and p: "isNode g p"
  shows "check_p0 g p True w =
     (if idOf p \<in> seen w then w
      else
        let w1 = fold (\<lambda>c. check_p0 g (the c) False)
                   (filter (\<lambda>n. n \<noteq> None) (neighbors g (fst (idOf p)) (snd (idOf p)))) w
        in w1\<lparr>seen := insert (idOf p) (seen w1),
               found := rule (Some p) (alive g (fst (idOf p)) (snd (idOf p)))
                        (aliveCount g (fst (idOf p)) (snd (idOf p))) (found w1)\<rparr>)"
  by (simp only: check_p0_True cid_idOf[OF ok p] alive_idOf[OF ok p] count_without_null
      aliveCount_def)

lemma seen_ok_fold_False:
  assumes ok: "ids_ok g" and ns: "\<forall>c\<in>set ns. c \<noteq> None \<and> isNode g (the c)" and w: "seen_ok g w"
  shows "seen_ok g (fold (\<lambda>c. check_p0 g (the c) False) ns w)"
  using ns w unfolding seen_ok_def seen_fold_False[OF ok ns] by auto

text \<open>A call \<open>check(node, true)\<close> keeps the state of the walk well formed and leaves the
  node seen.\<close>

lemma check_True_props:
  assumes ok: "ids_ok g" and p: "isNode g p" and w: "walk_ok g w" and s: "seen_ok g w"
  shows "walk_ok g (check_p0 g p True w) \<and> seen_ok g (check_p0 g p True w) \<and>
         insert (idOf p) (seen w) \<subseteq> seen (check_p0 g p True w)"
proof (cases "idOf p \<in> seen w")
  case True
  thus ?thesis using w s by (simp add: check_True_node[OF ok p])
next
  case False
  define ns where "ns = filter (\<lambda>n. n \<noteq> None) (neighbors g (fst (idOf p)) (snd (idOf p)))"
  define w1 where "w1 = fold (\<lambda>c. check_p0 g (the c) False) ns w"
  define w2 where "w2 = w1\<lparr>seen := insert (idOf p) (seen w1),
               found := rule (Some p) (alive g (fst (idOf p)) (snd (idOf p)))
                        (aliveCount g (fst (idOf p)) (snd (idOf p))) (found w1)\<rparr>"
  have ns: "\<forall>c\<in>set ns. c \<noteq> None \<and> isNode g (the c)"
    unfolding ns_def using ok by (rule neighborsArr_nodes)
  have w1: "walk_ok g w1" unfolding w1_def using ns w by (rule walk_ok_fold_False[OF ok])
  have s1: "seen_ok g w1" unfolding w1_def using ok ns s by (rule seen_ok_fold_False)
  have sub: "seen w \<subseteq> seen w1"
    unfolding w1_def seen_fold_False[OF ok ns] by (rule Un_upper1)
  have eq: "check_p0 g p True w = w2"
    unfolding w2_def w1_def ns_def using False
    by (simp only: check_True_node[OF ok p] Let_def if_False)
  have seen2: "seen w2 = insert (idOf p) (seen w1)" by (simp add: w2_def)
  have "walk_ok g w2"
  proof (cases "idOf p \<in> seen w1")
    case True
    obtain ks rs where l: "nodesToKill (found w1) = map Some ks"
        "nodesToResurrect (found w1) = map Some rs"
      and ks: "set ks = {q. isNode g q \<and> idOf q \<in> seen w1 \<and> dies g (idOf q)}"
      and rs: "set rs = {q. isNode g q \<and> idOf q \<in> seen w1 \<and> born g (idOf q)}"
      using w1 unfolding walk_ok_def by blast
    let ?ks = "ks @ (if dies g (idOf p) then [p] else [])"
    let ?rs = "rs @ (if born g (idOf p) then [p] else [])"
    have 1: "nodesToKill (found w2) = map Some ?ks" by (simp add: w2_def rule_lists l)
    have 2: "nodesToResurrect (found w2) = map Some ?rs" by (simp add: w2_def rule_lists l)
    have 3: "set ?ks = {q. isNode g q \<and> idOf q \<in> seen w2 \<and> dies g (idOf q)}"
      using p True by (auto simp: ks seen2)
    have 4: "set ?rs = {q. isNode g q \<and> idOf q \<in> seen w2 \<and> born g (idOf q)}"
      using p True by (auto simp: rs seen2)
    show ?thesis unfolding walk_ok_def using 1 2 3 4 by blast
  next
    case False
    with w1 p show ?thesis unfolding w2_def by (rule walk_ok_step)
  qed
  moreover have "seen_ok g w2" using s1 p unfolding seen_ok_def seen2 by auto
  moreover have "insert (idOf p) (seen w) \<subseteq> seen w2" using sub unfolding seen2 by auto
  ultimately show ?thesis unfolding eq by blast
qed

lemma fold_check_True:
  assumes ok: "ids_ok g"
  shows "\<forall>p\<in>set ps. isNode g p \<Longrightarrow> walk_ok g w \<Longrightarrow> seen_ok g w \<Longrightarrow>
         walk_ok g (fold (\<lambda>node. check_p0 g node True) ps w) \<and>
         seen_ok g (fold (\<lambda>node. check_p0 g node True) ps w) \<and>
         seen w \<union> idOf ` set ps \<subseteq> seen (fold (\<lambda>node. check_p0 g node True) ps w)"
proof (induction ps arbitrary: w)
  case Nil
  thus ?case by simp
next
  case (Cons p ps)
  have p: "isNode g p" using Cons.prems(1) by simp
  note c = check_True_props[OF ok p Cons.prems(2,3)]
  have "\<forall>p\<in>set ps. isNode g p" using Cons.prems(1) by simp
  from Cons.IH[OF this, of "check_p0 g p True w"] c
  show ?case by auto
qed

lemma walk_p0_props:
  assumes ok: "ids_ok g"
  shows "walk_ok g (walk_p0 g)" and "seen_ok g (walk_p0 g)"
    and "idOf ` set (querySelectorAll_alive g) \<subseteq> seen (walk_p0 g)"
proof -
  let ?w0 = "\<lparr>seen = {}, found = \<lparr>nodesToKill = [], nodesToResurrect = []\<rparr>\<rparr>"
  have 0: "walk_ok g ?w0" by (simp add: walk_ok_def)
  have 1: "seen_ok g ?w0" by (simp add: seen_ok_def)
  have 2: "\<forall>p\<in>set (querySelectorAll_alive g). isNode g p"
    by (simp add: querySelectorAll_alive_def set_nodes)
  from fold_check_True[OF ok 2 0 1]
  show "walk_ok g (walk_p0 g)" and "seen_ok g (walk_p0 g)"
    and "idOf ` set (querySelectorAll_alive g) \<subseteq> seen (walk_p0 g)"
    by (simp_all add: walk_p0_def)
qed

text \<open>Every alive cell is seen by the walk: it is seen before its turn or in its turn.\<close>

lemma alive_seen:
  assumes ok: "ids_ok g" and a: "alive g r c"
  shows "(r, c) \<in> seen (walk_p0 g)"
proof -
  from a have n: "0 \<le> r" "0 \<le> c" "isNode g (nat r, nat c)"
    and t: "truthy (data_alive (g ! nat r ! nat c))"
    by (simp_all add: alive_ids_ok[OF ok])
  have "data_alive (cellAt g (nat r, nat c)) \<noteq> None"
    using t by (cases "data_alive (g ! nat r ! nat c)") (simp_all add: cellAt_def)
  hence "(nat r, nat c) \<in> set (querySelectorAll_alive g)"
    using n(3) by (simp add: querySelectorAll_alive_def set_nodes)
  hence "idOf (nat r, nat c) \<in> seen (walk_p0 g)" using walk_p0_props(3)[OF ok] by blast
  thus ?thesis using n by (simp add: idOf_def)
qed

text \<open>The step of the second file returns; every seen cell has the state the rule gives
  it from the counts before the step, and every other cell is unchanged. With
  \<open>alive_seen\<close>: no alive cell is treated wrongly, and the only cells the step can get wrong
  are dead cells it has not seen.\<close>

lemma render_p0_rule:
  assumes ok: "ids_ok g"
  shows "\<exists>g'. render_p0 g = Inr g' \<and>
           (\<forall>r c. alive g' r c =
              (if (r, c) \<in> seen (walk_p0 g) then B3S23 (alive g r c) (aliveCount g r c)
               else alive g r c))"
proof -
  obtain ks rs where l: "nodesToKill (found (walk_p0 g)) = map Some ks"
      "nodesToResurrect (found (walk_p0 g)) = map Some rs"
    and ks: "set ks = {q. isNode g q \<and> idOf q \<in> seen (walk_p0 g) \<and> dies g (idOf q)}"
    and rs: "set rs = {q. isNode g q \<and> idOf q \<in> seen (walk_p0 g) \<and> born g (idOf q)}"
    using walk_p0_props(1)[OF ok] unfolding walk_ok_def by blast
  define g' where "g' = fold setAlive rs (fold removeAttribute ks g)"
  have "found (walk_p0 g) = \<lparr>nodesToKill = map Some ks, nodesToResurrect = map Some rs\<rparr>"
    using l by simp
  hence ret: "render_p0 g = Inr g'"
    by (simp only: render_p0_def applyLists_Some g'_def)
  hence "g' = outcome (render_p0 g)" by simp
  hence ok': "ids_ok g'"
    using render_preserves(2)[of ids_ok, OF ids_ok_removeAttribute ids_ok_setAlive ok] by simp
  have node: "isNode g' q = isNode g q" for q
    unfolding g'_def setAlive_def removeAttribute_def by (simp add: isNode_fold_updCell)
  have "alive g' r c =
          (if (r, c) \<in> seen (walk_p0 g) then B3S23 (alive g r c) (aliveCount g r c)
           else alive g r c)" for r c
  proof (cases "0 \<le> r \<and> 0 \<le> c \<and> isNode g (nat r, nat c)")
    case True
    hence q: "isNode g (nat r, nat c)" and i: "idOf (nat r, nat c) = (r, c)"
      by (simp_all add: idOf_def)
    have cell: "data_alive (cellAt g' (nat r, nat c)) =
        (if (r, c) \<in> seen (walk_p0 g) \<and> born g (r, c) then Some ''true''
         else if (r, c) \<in> seen (walk_p0 g) \<and> dies g (r, c) then None
         else data_alive (cellAt g (nat r, nat c)))"
      unfolding g'_def using q by (simp add: cellAt_applied[OF q] ks rs i)
    have al: "alive g r c = truthy (data_alive (cellAt g (nat r, nat c)))"
      using True by (simp add: alive_ids_ok[OF ok] cellAt_def)
    have al': "alive g' r c = truthy (data_alive (cellAt g' (nat r, nat c)))"
      using True by (simp add: alive_ids_ok[OF ok'] node cellAt_def)
    show ?thesis
      unfolding al' cell using al by (auto simp: born_def dies_def B3S23_def)
  next
    case False
    hence d: "\<not> alive g r c" "\<not> alive g' r c"
      by (auto simp: alive_ids_ok[OF ok] alive_ids_ok[OF ok'] node)
    have "(r, c) \<notin> seen (walk_p0 g)"
    proof
      assume "(r, c) \<in> seen (walk_p0 g)"
      then obtain p where "isNode g p" "idOf p = (r, c)"
        using walk_p0_props(2)[OF ok] unfolding seen_ok_def by auto
      thus False using False by (cases p) (auto simp: idOf_def)
    qed
    thus ?thesis using d by simp
  qed
  with ret show ?thesis by blast
qed

section \<open>A gesture with the mouse\<close>

lemma dragType_drag_start:
  "dragType (drag f True (Some t) s) =
     Some (if data_alive (cellAt (grid s) t) \<noteq> Some ''true'' then Delete else Add)"
  by (cases f) (simp_all add: drag_def onDrag_def onDrag_p0_def dragBody_def)

lemma alive_node:
  assumes "ids_ok g" and "isNode g p"
  shows "alive g (int (fst p)) (int (snd p)) = truthy (data_alive (cellAt g p))"
  using assms by (simp add: alive_ids_ok cellAt_def)

text \<open>A mouse press on a cell enters Add mode when the cell was dead before the press and
  Delete mode when it was alive; while a mode is set, entering a cell makes it alive in
  Add mode and dead in Delete mode, and keeps the mode.\<close>

lemma mouse_gesture_mode:
  assumes r: "reachable f s" and t: "isNode (grid s) t"
  shows "dragType (fire f (MouseDown (Some t)) s) =
           Some (if alive (grid s) (int (fst t)) (int (snd t)) then Delete else Add)"
proof -
  have inv: "ids_ok (grid s)" "marker_ok (grid s)" using reachable_inv[OF r] by simp_all
  have m: "data_alive (cellAt (grid s) t) = None \<or> data_alive (cellAt (grid s) t) = Some ''true''"
    using inv(2) t unfolding marker_ok_iff by blast
  have "data_alive (cellAt (column_onmousedown t (grid s)) t) =
          (if data_alive (cellAt (grid s) t) = Some ''true'' then None else Some ''true'')"
    using t by (simp add: column_onmousedown_def removeAttribute_def setAlive_def cellAt_updCell)
  thus ?thesis
    using m by (auto simp: dragType_drag_start alive_node[OF inv(1) t])
qed

lemma mouse_enter_paints:
  assumes r: "reachable f s" and q: "isNode (grid s) q"
  shows "dragType (fire f (MouseEnter q) s) = dragType s \<and>
         (dragType s = Some Add \<longrightarrow>
            alive (grid (fire f (MouseEnter q) s)) (int (fst q)) (int (snd q))) \<and>
         (dragType s = Some Delete \<longrightarrow>
            \<not> alive (grid (fire f (MouseEnter q) s)) (int (fst q)) (int (snd q)))"
proof -
  have inv: "ids_ok (grid s)" using reachable_inv[OF r] by simp
  let ?g = "column_onmouseenter (dragType s) q (grid s)"
  have ok: "ids_ok ?g" using inv by (rule ids_ok_onmouseenter)
  have n: "isNode ?g q"
    using q by (simp add: column_onmouseenter_def removeAttribute_def setAlive_def isNode_updCell)
  have al: "alive ?g (int (fst q)) (int (snd q)) = truthy (data_alive (cellAt ?g q))"
    using ok n by (rule alive_node)
  have a: "dragType s = Some Add \<Longrightarrow> data_alive (cellAt ?g q) = Some ''true''"
    using q by (simp add: column_onmouseenter_def setAlive_def cellAt_updCell)
  have d: "dragType s = Some Delete \<Longrightarrow> data_alive (cellAt ?g q) = None"
    using q by (simp add: column_onmouseenter_def removeAttribute_def cellAt_updCell)
  have "dragType s = Some Add \<Longrightarrow> alive ?g (int (fst q)) (int (snd q))"
    using a al by simp
  moreover have "dragType s = Some Delete \<Longrightarrow> \<not> alive ?g (int (fst q)) (int (snd q))"
    using d al by simp
  ultimately show ?thesis by simp
qed

section \<open>The claims\<close>

text \<open>
  Claim C1: for every grid, one step of the full scan (game.js) and one step of the walk
  over the alive cells (second file) leave every cell in the same state.

  The theorem runs both on the 4 x 4 grid with the alive cells (1,1), (2,0), (2,1) and
  (2,2). Both return. The dead cell (3,1) has the three alive neighbours (2,0), (2,1),
  (2,2): the full scan makes it alive, the walk leaves it dead. The walk expands the
  neighbours of (1,1) first, which marks (2,0), (2,1) and (2,2) as seen; \<open>check\<close> then
  returns at once for each of them, before it looks at their neighbours, so (3,1) is
  never evaluated.
\<close>

theorem render_variants_differ:
  "let g = fold column_onmousedown [(1, 1), (2, 0), (2, 1), (2, 2)] (initGrid 86 85 [])
   in board g =
        [[False, False, False, False],
         [False, True, False, False],
         [True, True, True, False],
         [False, False, False, False]] \<and>
      render g = Inr (outcome (render g)) \<and>
      render_p0 g = Inr (outcome (render_p0 g)) \<and>
      board (outcome (render g)) =
        [[False, False, False, False],
         [True, True, True, False],
         [True, True, True, False],
         [False, True, False, False]] \<and>
      board (outcome (render_p0 g)) =
        [[False, False, False, False],
         [True, True, True, False],
         [True, True, True, False],
         [False, False, False, False]]"
  by code_simp

text \<open>
  Claim C2: every cell evaluated in a step follows the rule on the counts of the state
  before the step (alive with 2 or 3 alive neighbours stays alive, alive otherwise dies,
  dead with exactly 3 becomes alive, dead otherwise stays dead), and the changes are
  applied together after all of them are computed.

  The theorem runs the full scan of game.js on the 3 x 4 grid whose last row is alive.
  The loops pass the id (1,2) to the body; that cell is dead and has exactly three alive
  neighbours, and it is pushed to \<open>nodesToResurrect\<close>. The entry before it is \<open>null\<close>:
  the loops also pass (3,1), which is no cell and has three alive neighbours. The second
  of the final loops throws at that entry, so (1,2) stays dead.
\<close>

theorem render_abandons_batch:
  "let g = fold column_onmousedown [(2, 0), (2, 1), (2, 2), (2, 3)] (initGrid 64 65 [])
   in board g =
        [[False, False, False, False],
         [False, False, False, False],
         [True, True, True, True]] \<and>
      (1, 2) \<in> set (scanned (length g) (length (g ! 0))) \<and>
      \<not> alive g 1 2 \<and>
      length (filter (getIsNodeAlive g) (neighbors g 1 2)) = 3 \<and>
      scan g = \<lparr>nodesToKill = [Some (2, 0)],
                nodesToResurrect = [Some (1, 1), None, Some (1, 2), None]\<rparr> \<and>
      render g = Inl (TypeError, outcome (render g)) \<and>
      board (outcome (render g)) =
        [[False, False, False, False],
         [False, True, False, False],
         [False, True, True, True]]"
  by code_simp

text \<open>
  Claim C3: on a grid of \<open>rows\<close> rows and \<open>cols\<close> columns the full scan evaluates the rule
  at every coordinate of \<open>[0,rows) x [0,cols)\<close> exactly once and at no other coordinate.

  The theorem runs the scan on the grid of one row and three columns, all alive. The ids
  passed to the body are (0,0), (1,0) and (2,0): the bound of the column index is the
  number of rows and the bound of the row index is the number of columns. The cells (0,1)
  and (0,2) are never evaluated, so (0,2) stays alive with a single alive neighbour.
\<close>

theorem render_scans_transposed:
  "let g = fold column_onmousedown [(0, 0), (0, 1), (0, 2)] (initGrid 22 43 [])
   in map (map cid) g = [[(0, 0), (0, 1), (0, 2)]] \<and>
      board g = [[True, True, True]] \<and>
      scanned (length g) (length (g ! 0)) = [(0, 0), (1, 0), (2, 0)] \<and>
      render g = Inr (outcome (render g)) \<and>
      board (outcome (render g)) = [[False, True, True]]"
  by code_simp

text \<open>
  Claim C4: every operation is total: reading a coordinate outside the grid gives dead,
  writing there does nothing, the neighbour lookup leaves such coordinates out, and no
  operation throws, the generation step on a grid without rows included.

  The theorem runs \<open>render\<close> of game.js on the grid a viewport 21 pixels high gets, which
  has no row, and on the 2 x 3 grid whose last row is alive. Both calls throw a TypeError;
  the step of the second file returns on both grids.
\<close>

theorem render_throws:
  "initGrid 21 640 [] = [] \<and>
   render (initGrid 21 640 []) = Inl (TypeError, []) \<and>
   render_p0 (initGrid 21 640 []) = Inr [] \<and>
   (let g = fold column_onmousedown [(1, 0), (1, 1), (1, 2)] (initGrid 43 43 [])
    in board g = [[False, False, False], [True, True, True]] \<and>
       render g = Inl (TypeError, outcome (render g)) \<and>
       render_p0 g = Inr (outcome (render_p0 g)))"
  by code_simp

text \<open>
  Claim C6: resizing an \<open>R x C\<close> grid to at least as many rows and columns keeps the state
  of every cell it had and leaves every added cell dead; resizing to fewer rows and fewer
  columns keeps exactly the alive cells inside the new rectangle and drops the rest.

  \<open>initGrid\<close> is applied to a grid of shape \<open>R x C\<close> whose cells carry the ids of their
  places, for a viewport whose formulas give the new numbers of rows and columns. The
  cells are compared by place and by the reading \<open>alive\<close>, which is dead outside the grid.
\<close>

theorem initGrid_preserves:
  assumes "shape R C g" and "ids_ok g"
  shows "(R \<le> R' \<and> C \<le> C' \<and> reqRows height = int R' \<and> reqCols width = int C' \<longrightarrow>
            shape R' C' (initGrid height width g) \<and>
            (\<forall>r<R. \<forall>c<C. initGrid height width g ! r ! c = g ! r ! c) \<and>
            (\<forall>r<R'. \<forall>c<C'. \<not> (r < R \<and> c < C) \<longrightarrow>
               data_alive (initGrid height width g ! r ! c) = None) \<and>
            (\<forall>r c. alive (initGrid height width g) r c = alive g r c)) \<and>
         (R'' < R \<and> C'' < C \<and> reqRows height = int R'' \<and> reqCols width = int C'' \<longrightarrow>
            shape R'' C'' (initGrid height width g) \<and>
            (\<forall>r<R''. \<forall>c<C''. initGrid height width g ! r ! c = g ! r ! c) \<and>
            (\<forall>r c. alive (initGrid height width g) r c =
               (alive g r c \<and> r < int R'' \<and> c < int C'')))"
proof (intro conjI impI)
  assume a: "R \<le> R' \<and> C \<le> C' \<and> reqRows height = int R' \<and> reqCols width = int C'"
  show "shape R' C' (initGrid height width g)" using a by (simp add: shape_initGrid)
  show "\<forall>r<R. \<forall>c<C. initGrid height width g ! r ! c = g ! r ! c"
    using a by (simp add: initGrid_nth[of height R' width C'] isNode_shape[OF assms(1)])
  show "\<forall>r<R'. \<forall>c<C'. \<not> (r < R \<and> c < C) \<longrightarrow>
          data_alive (initGrid height width g ! r ! c) = None"
    using a by (simp add: initGrid_nth[of height R' width C'] isNode_shape[OF assms(1)] newColumn_def)
  show "\<forall>r c. alive (initGrid height width g) r c = alive g r c"
  proof (intro allI)
    fix r c
    have "alive g r c \<Longrightarrow> r < int R' \<and> c < int C'"
      using a by (auto simp: alive_ids_ok[OF assms(2)] isNode_shape[OF assms(1)])
    thus "alive (initGrid height width g) r c = alive g r c"
      using a initGrid_alive[OF assms(2), of height R' width C' r c] by blast
  qed
next
  assume a: "R'' < R \<and> C'' < C \<and> reqRows height = int R'' \<and> reqCols width = int C''"
  show "shape R'' C'' (initGrid height width g)" using a by (simp add: shape_initGrid)
  show "\<forall>r<R''. \<forall>c<C''. initGrid height width g ! r ! c = g ! r ! c"
    using a by (simp add: initGrid_nth[of height R'' width C''] isNode_shape[OF assms(1)])
  show "\<forall>r c. alive (initGrid height width g) r c =
               (alive g r c \<and> r < int R'' \<and> c < int C'')"
    using a initGrid_alive[OF assms(2), of height R'' width C''] by blast
qed

theorem initGrid_preserves_witness:
  "shape 3 4 (fold column_onmousedown [(0, 0), (1, 1), (2, 3)] (initGrid 64 65 [])) \<and>
   ids_ok (fold column_onmousedown [(0, 0), (1, 1), (2, 3)] (initGrid 64 65 [])) \<and>
   (3::nat) \<le> 4 \<and> (4::nat) \<le> 5 \<and> reqRows 86 = int 4 \<and> reqCols 100 = int 5 \<and>
   shape 4 5 (initGrid 86 100 (fold column_onmousedown [(0, 0), (1, 1), (2, 3)] (initGrid 64 65 []))) \<and>
   alive (initGrid 86 100 (fold column_onmousedown [(0, 0), (1, 1), (2, 3)] (initGrid 64 65 []))) 2 3 \<and>
   \<not> alive (initGrid 86 100 (fold column_onmousedown [(0, 0), (1, 1), (2, 3)] (initGrid 64 65 []))) 3 4 \<and>
   (2::nat) < 3 \<and> (3::nat) < 4 \<and> reqRows 43 = int 2 \<and> reqCols 43 = int 3 \<and>
   shape 2 3 (initGrid 43 43 (fold column_onmousedown [(0, 0), (1, 1), (2, 3)] (initGrid 64 65 []))) \<and>
   alive (initGrid 43 43 (fold column_onmousedown [(0, 0), (1, 1), (2, 3)] (initGrid 64 65 []))) 1 1 \<and>
   \<not> alive (initGrid 43 43 (fold column_onmousedown [(0, 0), (1, 1), (2, 3)] (initGrid 64 65 []))) 2 3"
proof -
  let ?g = "fold column_onmousedown [(0, 0), (1, 1), (2, 3)] (initGrid 64 65 [])"
  have sh: "shape 3 4 ?g" by code_simp
  have ok: "ids_ok ?g" by code_simp
  have grow: "(3::nat) \<le> 4 \<and> (4::nat) \<le> 5 \<and> reqRows 86 = int 4 \<and> reqCols 100 = int 5"
    by (simp add: reqRows_div reqCols_div)
  have shrink: "(2::nat) < 3 \<and> (3::nat) < 4 \<and> reqRows 43 = int 2 \<and> reqCols 43 = int 3"
    by (simp add: reqRows_div reqCols_div)
  have before: "alive ?g 2 3" "\<not> alive ?g 3 4" "alive ?g 1 1" by code_simp+
  note g = initGrid_preserves[OF sh ok, of 4 5 86 100 0 0, THEN conjunct1, rule_format, OF grow]
  note s = initGrid_preserves[OF sh ok, of 0 0 43 43 2 3, THEN conjunct2, rule_format, OF shrink]
  have "shape 4 5 (initGrid 86 100 ?g)" using g by blast
  moreover have "alive (initGrid 86 100 ?g) 2 3" "\<not> alive (initGrid 86 100 ?g) 3 4"
    using g before by blast+
  moreover have "shape 2 3 (initGrid 43 43 ?g)" using s by blast
  moreover have "alive (initGrid 43 43 ?g) 1 1" "\<not> alive (initGrid 43 43 ?g) 2 3"
    using s before by auto
  ultimately show ?thesis using sh ok grow shrink by blast
qed


text \<open>
  Claim C9: pressing the same cell twice, with no generation step between, returns the
  cell to the state it had.

  In every reachable state and for every cell of the grid, the cell's own handler run
  twice gives back the grid, two mouse presses on the cell (handler and grid listener)
  give back the grid, and one press inverts the cell.
\<close>

theorem toggle_twice:
  assumes "reachable f s" and "isNode (grid s) p"
  shows "column_onmousedown p (column_onmousedown p (grid s)) = grid s \<and>
         grid (fire f (MouseDown (Some p)) (fire f (MouseDown (Some p)) s)) = grid s \<and>
         alive (grid (fire f (MouseDown (Some p)) s)) (int (fst p)) (int (snd p)) =
           (\<not> alive (grid s) (int (fst p)) (int (snd p)))"
proof -
  have inv: "ids_ok (grid s)" "marker_ok (grid s)" using reachable_inv[OF assms(1)] by simp_all
  have m: "data_alive (cellAt (grid s) p) = None \<or> data_alive (cellAt (grid s) p) = Some ''true''"
    using inv(2) assms(2) unfolding marker_ok_iff by blast
  have twice: "column_onmousedown p (column_onmousedown p (grid s)) = grid s"
    using assms(2) m by (rule onmousedown_twice)
  have ok': "ids_ok (column_onmousedown p (grid s))" using inv(1) by (rule ids_ok_onmousedown)
  have n': "isNode (column_onmousedown p (grid s)) p" using assms(2) by (simp add: isNode_onmousedown)
  have "truthy (data_alive (cellAt (column_onmousedown p (grid s)) p)) =
          (\<not> truthy (data_alive (cellAt (grid s) p)))"
    using m assms(2)
    by (auto simp: column_onmousedown_def removeAttribute_def setAlive_def cellAt_updCell)
  hence "alive (column_onmousedown p (grid s)) (int (fst p)) (int (snd p)) =
           (\<not> alive (grid s) (int (fst p)) (int (snd p)))"
    using assms(2) n' by (simp add: alive_ids_ok[OF ok'] alive_ids_ok[OF inv(1)] cellAt_def)
  thus ?thesis using twice by (simp add: grid_fire)
qed

theorem toggle_twice_witness:
  "reachable GameJs (fire GameJs (MouseDown (Some (1, 2))) (init 64 65)) \<and>
   isNode (grid (fire GameJs (MouseDown (Some (1, 2))) (init 64 65))) (1, 2) \<and>
   board (grid (fire GameJs (MouseDown (Some (1, 2))) (init 64 65))) =
     [[False, False, False, False], [False, False, True, False], [False, False, False, False]] \<and>
   board (grid (fire GameJs (MouseDown (Some (1, 2)))
            (fire GameJs (MouseDown (Some (1, 2))) (init 64 65)))) =
     [[False, False, False, False], [False, False, False, False], [False, False, False, False]] \<and>
   board (grid (fire GameJs (MouseDown (Some (1, 2)))
     (fire GameJs (MouseDown (Some (1, 2)))
       (fire GameJs (MouseDown (Some (1, 2))) (init 64 65))))) =
     [[False, False, False, False], [False, False, True, False], [False, False, False, False]]"
proof -
  let ?s = "fire GameJs (MouseDown (Some (1, 2))) (init 64 65)"
  have n0: "isNode (grid (init 64 65)) (1, 2)" by code_simp
  have "reachable GameJs (init 64 65)" by (rule reachable.start) simp_all
  moreover have "happens (MouseDown (Some (1, 2))) (init 64 65)" using n0 by simp
  ultimately have r: "reachable GameJs ?s" by (rule reachable.step)
  have n: "isNode (grid ?s) (1, 2)" by code_simp
  have b: "board (grid ?s) =
     [[False, False, False, False], [False, False, True, False], [False, False, False, False]]"
    by code_simp
  have b1: "board (grid (fire GameJs (MouseDown (Some (1, 2))) ?s)) =
     [[False, False, False, False], [False, False, False, False], [False, False, False, False]]"
    by code_simp
  from toggle_twice[OF r n]
  have "grid (fire GameJs (MouseDown (Some (1, 2))) (fire GameJs (MouseDown (Some (1, 2))) ?s)) = grid ?s"
    by blast
  with r n b b1 show ?thesis by simp
qed

text \<open>
  Claim C10: every operation (pressing a cell, painting by dragging, applying a
  generation step, clearing, resizing) keeps the marker of every cell either the text
  \<open>true\<close> or absent, so the two tests of the code, truthiness of the marker and equality
  with \<open>true\<close>, agree in every reachable state.

  The first part lists the operations on a grid, the second is the same for every event
  of either file, the third is the agreement of the two tests on every cell of a
  reachable state. A step that throws keeps the invariant in what it wrote before.
\<close>

theorem marker_invariant:
  "(marker_ok g \<longrightarrow>
      marker_ok (column_onmousedown p g) \<and>
      marker_ok (column_onmouseenter dt p g) \<and>
      marker_ok (outcome (render g)) \<and>
      marker_ok (outcome (render_p0 g)) \<and>
      marker_ok (grid (clearBtn_onclick (s\<lparr>grid := g\<rparr>))) \<and>
      marker_ok (initGrid height width g)) \<and>
   (marker_ok (grid s) \<longrightarrow> marker_ok (grid (fire f e s))) \<and>
   (reachable f s \<longrightarrow>
      marker_ok (grid s) \<and>
      (\<forall>q. isNode (grid s) q \<longrightarrow>
         truthy (data_alive (cellAt (grid s) q)) = (data_alive (cellAt (grid s) q) = Some ''true'')))"
proof (intro conjI impI allI)
  assume g: "marker_ok g"
  show "marker_ok (column_onmousedown p g)" using g by (rule marker_ok_onmousedown)
  show "marker_ok (column_onmouseenter dt p g)" using g by (rule marker_ok_onmouseenter)
  show "marker_ok (outcome (render g))"
    using marker_ok_removeAttribute marker_ok_setAlive g by (rule render_preserves(1))
  show "marker_ok (outcome (render_p0 g))"
    using marker_ok_removeAttribute marker_ok_setAlive g by (rule render_preserves(2))
  show "marker_ok (grid (clearBtn_onclick (s\<lparr>grid := g\<rparr>)))"
    using g by (simp add: clearBtn_onclick_def Let_def marker_ok_clear)
  show "marker_ok (initGrid height width g)" using g by (rule marker_ok_initGrid)
next
  assume "marker_ok (grid s)"
  thus "marker_ok (grid (fire f e s))" by (rule marker_ok_fire)
next
  assume r: "reachable f s"
  thus m: "marker_ok (grid s)" using reachable_inv by blast
  fix q assume "isNode (grid s) q"
  with m have "data_alive (cellAt (grid s) q) = None \<or> data_alive (cellAt (grid s) q) = Some ''true''"
    unfolding marker_ok_iff by blast
  thus "truthy (data_alive (cellAt (grid s) q)) = (data_alive (cellAt (grid s) q) = Some ''true'')"
    by (rule marker_tests_agree)
qed

theorem marker_invariant_witness:
  "marker_ok (grid (init 43 43)) \<and>
   marker_ok (column_onmousedown (1, 1) (grid (init 43 43))) \<and>
   map (map data_alive) (column_onmousedown (1, 1) (grid (init 43 43))) =
     [[None, None, None], [None, Some ''true'', None]] \<and>
   reachable Part000 (fire Part000 (MouseDown (Some (1, 1))) (init 43 43)) \<and>
   isNode (grid (fire Part000 (MouseDown (Some (1, 1))) (init 43 43))) (1, 1) \<and>
   marker_ok (grid (fire Part000 (MouseDown (Some (1, 1))) (init 43 43))) \<and>
   truthy (data_alive (cellAt (grid (fire Part000 (MouseDown (Some (1, 1))) (init 43 43))) (1, 1))) \<and>
   data_alive (cellAt (grid (fire Part000 (MouseDown (Some (1, 1))) (init 43 43))) (1, 1)) =
     Some ''true'' \<and>
   marker_ok (grid (fire Part000 Tick (fire Part000 (MouseDown (Some (1, 1))) (init 43 43))))"
proof -
  let ?i = "init 43 43"
  let ?s = "fire Part000 (MouseDown (Some (1, 1))) ?i"
  have m0: "marker_ok (grid ?i)" by code_simp
  have n0: "isNode (grid ?i) (1, 1)" by code_simp
  have "reachable Part000 ?i" by (rule reachable.start) simp_all
  moreover have "happens (MouseDown (Some (1, 1))) ?i" using n0 by simp
  ultimately have r: "reachable Part000 ?s" by (rule reachable.step)
  have n: "isNode (grid ?s) (1, 1)" by code_simp
  have t: "truthy (data_alive (cellAt (grid ?s) (1, 1)))" by code_simp
  have v: "map (map data_alive) (column_onmousedown (1, 1) (grid ?i)) =
     [[None, None, None], [None, Some ''true'', None]]" by code_simp
  note inv = marker_invariant[of "grid ?i" "(1, 1)" None ?s 43 43 Part000 Tick]
  have a: "marker_ok (column_onmousedown (1, 1) (grid ?i))" using inv m0 by blast
  have b: "marker_ok (grid ?s)" using inv r by blast
  have c: "data_alive (cellAt (grid ?s) (1, 1)) = Some ''true''" using inv r n t by blast
  have d: "marker_ok (grid (fire Part000 Tick ?s))" using inv b by blast
  show ?thesis using m0 a v r n b t c d by blast
qed

text \<open>
  Claim C8: \<open>start()\<close> while the clock runs is a no-op that leaves exactly one periodic
  tick source, \<open>stop()\<close> while it is stopped is a no-op that does not throw, and after
  \<open>stop()\<close> returns no further tick runs.

  \<open>play()\<close> has no guard: called on a running clock it sets a second interval and
  forgets the id of the first, which \<open>pause()\<close> then cannot clear. The guard is in the
  only caller, the handler of the play button, which pauses a running clock instead.
\<close>

theorem play_twice_two_sources:
  "let s = play (play (init 86 85))
   in intervalId (init 86 85) = None \<and>
      intervals (play (init 86 85)) = {1} \<and>
      intervals s = {1, 2} \<and>
      intervalId s = Some 2 \<and>
      intervals (pause s) = {1} \<and>
      happens Tick (pause s) \<and>
      intervalId (playBtn_click (playBtn_click (init 86 85))) = None \<and>
      intervals (playBtn_click (playBtn_click (init 86 85))) = {}"
  by code_simp


text \<open>
  Claim C8 as the code has it: in every reachable state the intervals that are set are
  exactly the one the game remembers, none while stopped and one while running; the play
  button starts a stopped clock with one interval and stops a running one; \<open>pause()\<close> on
  a stopped clock changes nothing; after \<open>pause()\<close> no interval is set and no tick fires.
\<close>

theorem clock_single_source:
  assumes "reachable f s"
  shows "intervals s = (case intervalId s of None \<Rightarrow> {} | Some i \<Rightarrow> {i}) \<and>
         (intervalId s = None \<longrightarrow>
            pause s = s \<and> fire f PlayClick s = play s \<and>
            intervalId (play s) = Some (nextInterval s) \<and>
            intervals (play s) = {nextInterval s}) \<and>
         (intervalId s \<noteq> None \<longrightarrow> fire f PlayClick s = pause s) \<and>
         intervalId (pause s) = None \<and> intervals (pause s) = {} \<and>
         \<not> happens Tick (pause s)"
proof -
  have ss: "single_source s" using reachable_inv[OF assms] by simp
  hence p: "intervals (pause s) = {}" by (rule intervals_pause)
  have "intervalId s = None \<Longrightarrow> intervals (play s) = {nextInterval s}"
    using ss by (simp add: single_source_def play_def)
  thus ?thesis using ss p
    by (auto simp: single_source_def pause_stopped playBtn_click_def play_def)
qed

theorem clock_single_source_witness:
  "reachable GameJs (init 86 85) \<and>
   intervalId (init 86 85) = None \<and>
   intervals (init 86 85) = {} \<and>
   pause (init 86 85) = init 86 85 \<and>
   intervals (fire GameJs PlayClick (init 86 85)) = {1} \<and>
   reachable GameJs (fire GameJs PlayClick (init 86 85)) \<and>
   intervalId (fire GameJs PlayClick (init 86 85)) \<noteq> None \<and>
   fire GameJs PlayClick (fire GameJs PlayClick (init 86 85)) =
     pause (fire GameJs PlayClick (init 86 85)) \<and>
   intervals (fire GameJs PlayClick (fire GameJs PlayClick (init 86 85))) = {}"
proof -
  let ?i = "init 86 85"
  let ?r = "fire GameJs PlayClick ?i"
  have r0: "reachable GameJs ?i" by (rule reachable.start) simp_all
  hence r1: "reachable GameJs ?r" by (rule reachable.step) simp
  have id0: "intervalId ?i = None" by (simp add: init_def)
  have n0: "nextInterval ?i = 1" by (simp add: init_def)
  have id1: "intervalId ?r \<noteq> None" by (simp add: init_def playBtn_click_def play_def)
  note a = clock_single_source[OF r0]
  note b = clock_single_source[OF r1]
  have "intervals ?i = {}" using a id0 by simp
  moreover have "pause ?i = ?i" using a id0 by blast
  moreover have "?r = play ?i" using a id0 by blast
  hence "intervals ?r = {1}" using a id0 n0 by simp
  moreover have "fire GameJs PlayClick ?r = pause ?r" using b id1 by blast
  moreover have "intervals (pause ?r) = {}" using b by blast
  ultimately show ?thesis using r0 r1 id0 id1 by simp
qed


text \<open>
  Claim C7: a resize or the start of a paint gesture while the clock runs stops the clock
  before the shape of the grid changes or the paint mode is entered, and no generation
  step runs between the events of a resize or of a paint gesture.

  The resize listener calls \<open>initGrid\<close> only, in both files: after a resize of a running
  game the grid has its new shape, the interval is still set and the next tick fires.
  The drag mode of game.js also survives a press of the play button, after which ticks
  fire while the mode is set.
\<close>

theorem resize_keeps_clock_running:
  "let s = fire GameJs PlayClick (init 86 85);
       s' = fire GameJs (Resize 43 43) s;
       d = fire GameJs PlayClick (fire GameJs (MouseDown (Some (0, 0))) (init 86 85))
   in intervalId s = Some 1 \<and>
      shape 4 4 (grid s) \<and>
      happens (Resize 43 43) s \<and>
      shape 2 3 (grid s') \<and>
      intervalId s' = Some 1 \<and>
      intervals s' = {1} \<and>
      happens Tick s' \<and>
      intervalId (fire Part000 (Resize 43 43) (fire Part000 PlayClick (init 86 85))) = Some 1 \<and>
      dragType d = Some Add \<and>
      happens Tick d"
  by code_simp


text \<open>
  Claim C7 as game.js has it: the grid's listener for the start and the end of a gesture
  calls \<open>pause()\<close> first, so after a mouse press, a touch start, a mouse release or a
  touch end no interval is set and no tick fires, and the drag mode is computed in the
  paused state. A resize leaves the clock as it was.
\<close>

theorem drag_stops_clock:
  assumes "reachable GameJs s"
  shows "(e = MouseDown t \<or> e = TouchStart t \<or> e = MouseUp \<or> e = TouchEnd \<longrightarrow>
            intervalId (fire GameJs e s) = None \<and>
            intervals (fire GameJs e s) = {} \<and>
            \<not> happens Tick (fire GameJs e s)) \<and>
         fire GameJs (TouchStart t) s = dragBody True t (pause s) \<and>
         fire GameJs (MouseDown (Some p)) s =
           dragBody True (Some p) (pause (s\<lparr>grid := column_onmousedown p (grid s)\<rparr>)) \<and>
         intervalId (fire f (Resize height width) s) = intervalId s \<and>
         intervals (fire f (Resize height width) s) = intervals s"
proof -
  have ss: "single_source s" using reachable_inv[OF assms] by simp
  hence ss': "single_source (s\<lparr>grid := g\<rparr>)" for g by (simp add: single_source_def)
  have "intervals (pause s) = {}" using ss by (rule intervals_pause)
  moreover have "intervals (pause (s\<lparr>grid := g\<rparr>)) = {}" for g
    using ss' by (rule intervals_pause)
  ultimately show ?thesis
    by (cases t) (auto simp: drag_def onDrag_def)
qed

theorem drag_stops_clock_witness:
  "reachable GameJs (fire GameJs PlayClick (init 86 85)) \<and>
   intervals (fire GameJs PlayClick (init 86 85)) = {1} \<and>
   intervalId (fire GameJs (MouseDown (Some (1, 1))) (fire GameJs PlayClick (init 86 85))) = None \<and>
   intervals (fire GameJs (MouseDown (Some (1, 1))) (fire GameJs PlayClick (init 86 85))) = {} \<and>
   \<not> happens Tick (fire GameJs (MouseDown (Some (1, 1))) (fire GameJs PlayClick (init 86 85))) \<and>
   dragType (fire GameJs (MouseDown (Some (1, 1))) (fire GameJs PlayClick (init 86 85))) = Some Add \<and>
   intervals (fire GameJs (Resize 43 43) (fire GameJs PlayClick (init 86 85))) = {1}"
proof -
  let ?i = "init 86 85"
  let ?r = "fire GameJs PlayClick ?i"
  have r0: "reachable GameJs ?i" by (rule reachable.start) simp_all
  hence r1: "reachable GameJs ?r" by (rule reachable.step) simp
  have i: "intervals ?r = {1}" by (simp add: init_def playBtn_click_def play_def)
  have d: "dragType (fire GameJs (MouseDown (Some (1, 1))) ?r) = Some Add" by code_simp
  note a = drag_stops_clock[OF r1, of "MouseDown (Some (1, 1))" "Some (1, 1)" "(1, 1)" GameJs 43 43]
  have "intervalId (fire GameJs (MouseDown (Some (1, 1))) ?r) = None"
    "intervals (fire GameJs (MouseDown (Some (1, 1))) ?r) = {}"
    "\<not> happens Tick (fire GameJs (MouseDown (Some (1, 1))) ?r)"
    using a by blast+
  moreover have "intervals (fire GameJs (Resize 43 43) ?r) = {1}" using a i by simp
  ultimately show ?thesis using r1 i d by blast
qed


text \<open>
  Claim C5: a paint gesture that starts on a dead cell enters Add mode and one that starts
  on an alive cell enters Delete mode; the cells entered afterwards become alive in Add
  mode and dead in Delete mode.

  The grid's listener sets the mode to Delete when the target's marker is not \<open>true\<close>.
  A mouse press reaches it after the cell's own handler has inverted the cell, which
  gives the mode of the claim. A touch start reaches it with the cell untouched: on a
  dead cell the mode is Delete.
\<close>

theorem touchstart_inverts_mode:
  "let s = init 43 43
   in board (grid s) = [[False, False, False], [False, False, False]] \<and>
      happens (TouchStart (Some (0, 0))) s \<and>
      dragType (fire GameJs (TouchStart (Some (0, 0))) s) = Some Delete \<and>
      dragType (fire Part000 (TouchStart (Some (0, 0))) s) = Some Delete \<and>
      dragType (fire GameJs (MouseDown (Some (0, 0))) s) = Some Add \<and>
      dragType (fire Part000 (MouseDown (Some (0, 0))) s) = Some Add"
  by code_simp

end
